theory Spec2Isabelle
  imports Main "HOL-Library.Word" "HOL-Library.AList"
begin

unbundle bit_operations_syntax

section \<open>Data model of hashmap.go\<close>

text \<open>
  Keys are Go values of type \<open>interface{}\<close>; the code inspects their dynamic type.
  The five supported dynamic types are one constructor each (\<open>int\<close> is the 64-bit
  Go \<open>int\<close>; a Go string is its byte sequence). \<open>KNil\<close> is the nil interface (what
  \<open>setPairsEmpty\<close> stores for a string key) and \<open>KOther\<close> stands for a value of any
  other dynamic type. Stored values are opaque: \<open>'v option\<close>, with \<open>None\<close> for Go's
  \<open>nil\<close>.
\<close>

datatype key_val =
    KBytes "8 word list"
  | KString "8 word list"
  | KInt "64 word"
  | KUint64 "64 word"
  | KUint32 "32 word"
  | KNil
  | KOther

text \<open>
  Every panic of the code is an error value. \<open>BadKeyType\<close> and \<open>CapacityTooSmall\<close>
  are the two \<open>panic(errors.New ...)\<close> calls; the others are run-time panics of Go:
  a failed type assertion \<open>v.(T)\<close>, \<open>make\<close> with a negative length, a nil-pointer
  dereference and a slice index out of range.
\<close>

datatype error =
    BadKeyType
  | CapacityTooSmall
  | TypeAssertion
  | MakesliceLen
  | NilDeref
  | IndexOutOfRange

text \<open>
  A \<open>*Pairs\<close> is \<open>None\<close> (nil) or the address of a node. The store maps addresses to
  nodes; \<open>fresh\<close> is the next address \<open>&Pairs{...}\<close> allocates. Go never frees a
  node that is still referenced, so every address denotes a node.
\<close>

type_synonym ptr = "nat option"

record 'v Pairs =
  key :: key_val
  value' :: "'v option"
  last' :: ptr
  next' :: ptr

record 'v heap =
  cells :: "nat \<Rightarrow> 'v Pairs"
  fresh :: nat

text \<open>
  The table. \<open>capacity\<close>, \<open>mask_int\<close> and \<open>count\<close> are Go \<open>int\<close>s (64-bit two's
  complement, read with \<open>sint\<close>). The lock is not a field of the model: every
  function below is the effect of one critical section run alone.
\<close>

record HM =
  slices :: "ptr list"
  capacity :: "64 word"
  mask_uint32 :: "32 word"
  mask_uint64 :: "64 word"
  mask_int :: "64 word"
  count :: "64 word"

definition upd :: "'v heap \<Rightarrow> nat \<Rightarrow> ('v Pairs \<Rightarrow> 'v Pairs) \<Rightarrow> 'v heap" where
  "upd h a f = h\<lparr>cells := (cells h)(a := f (cells h a))\<rparr>"

definition alloc :: "'v heap \<Rightarrow> 'v Pairs \<Rightarrow> nat \<times> 'v heap" where
  "alloc h p = (fresh h, h\<lparr>cells := (cells h)(fresh h := p), fresh := Suc (fresh h)\<rparr>)"

text \<open>Reading \<open>s[i]\<close>: Go panics when the index is out of range.\<close>

definition slice_get :: "ptr list \<Rightarrow> int \<Rightarrow> error + ptr" where
  "slice_get s i = (if 0 \<le> i \<and> i < int (length s) then Inr (s ! nat i) else Inl IndexOutOfRange)"

section \<open>New\<close>

text \<open>
  \<open>int(math.Ceil(math.Log2(float64(capacity))))\<close>, for \<open>capacity \<ge> 16\<close>: the least
  \<open>k\<close> with \<open>capacity \<le> 2 ^ k\<close>. The floating-point computation is idealised as
  exact; Go's \<open>float64\<close> holds every integer up to \<open>2 ^ 53\<close> exactly, and the claims
  below that depend on this function are stated for arguments up to \<open>2 ^ 32\<close>.
\<close>

function ceil_log2 :: "nat \<Rightarrow> nat" where
  "ceil_log2 n = (if n \<le> 1 then 0 else Suc (ceil_log2 ((n + 1) div 2)))"
  by pat_completeness auto
termination
  by (relation "measure id") auto

declare ceil_log2.simps [simp del]

text \<open>
  \<open>1 << k\<close> on a 64-bit \<open>int\<close> wraps (\<open>1 << 63\<close> is negative), and \<open>make\<close> panics on
  a negative length. Memory is not bounded in the model.
\<close>

definition New :: "64 word \<Rightarrow> error + HM" where
  "New capacity0 =
     (let defaultCapacity = (16 :: 64 word);
          capacity1 = (if capacity0 <s defaultCapacity then defaultCapacity
                       else push_bit (ceil_log2 (nat (sint capacity0))) 1)
      in if sint capacity1 < 0 then Inl MakesliceLen
         else Inr \<lparr>slices = replicate (nat (sint capacity1)) None,
                   capacity = capacity1,
                   mask_uint32 = ucast (capacity1 - 1),
                   mask_uint64 = capacity1 - 1,
                   mask_int = capacity1 - 1,
                   count = 0\<rparr>)"

section \<open>Key-domain dispatch\<close>

text \<open>FNV-1, 32 bit (\<open>hash/fnv\<close>, \<open>New32\<close>): multiply by the prime, then xor the byte.\<close>

definition fnv32 :: "8 word list \<Rightarrow> 32 word" where
  "fnv32 bs = foldl (\<lambda>h b. (h * 16777619) XOR ucast b) 2166136261 bs"

fun bytesEqual :: "key_val \<Rightarrow> key_val \<Rightarrow> error + bool" where
  "bytesEqual (KBytes v1) (KBytes v2) = Inr (v1 = v2)"
| "bytesEqual _ _ = Inl TypeAssertion"

fun stringEqual :: "key_val \<Rightarrow> key_val \<Rightarrow> error + bool" where
  "stringEqual (KString v1) (KString v2) = Inr (v1 = v2)"
| "stringEqual _ _ = Inl TypeAssertion"

fun intEqual :: "key_val \<Rightarrow> key_val \<Rightarrow> error + bool" where
  "intEqual (KInt v1) (KInt v2) = Inr (v1 = v2)"
| "intEqual _ _ = Inl TypeAssertion"

fun uint32Equal :: "key_val \<Rightarrow> key_val \<Rightarrow> error + bool" where
  "uint32Equal (KUint32 v1) (KUint32 v2) = Inr (v1 = v2)"
| "uint32Equal _ _ = Inl TypeAssertion"

fun uint64Equal :: "key_val \<Rightarrow> key_val \<Rightarrow> error + bool" where
  "uint64Equal (KUint64 v1) (KUint64 v2) = Inr (v1 = v2)"
| "uint64Equal _ _ = Inl TypeAssertion"

fun getHashIndexAndEqualFunc ::
  "HM \<Rightarrow> key_val \<Rightarrow> error + int \<times> (key_val \<Rightarrow> key_val \<Rightarrow> error + bool)" where
  "getHashIndexAndEqualFunc hm (KBytes b) = Inr (uint (fnv32 b AND mask_uint32 hm), bytesEqual)"
| "getHashIndexAndEqualFunc hm (KString s) = Inr (uint (fnv32 s AND mask_uint32 hm), stringEqual)"
| "getHashIndexAndEqualFunc hm (KInt i) = Inr (sint (i AND mask_int hm), intEqual)"
| "getHashIndexAndEqualFunc hm (KUint64 u) = Inr (sint (u AND mask_uint64 hm), uint64Equal)"
| "getHashIndexAndEqualFunc hm (KUint32 u) = Inr (uint (u AND mask_uint32 hm), uint32Equal)"
| "getHashIndexAndEqualFunc hm KNil = Inl BadKeyType"
| "getHashIndexAndEqualFunc hm KOther = Inl BadKeyType"

section \<open>Lookup\<close>

text \<open>
  The \<open>for\<close> loop of \<open>getPairsUnsafe\<close>. On a cyclic chain that does not hold the key
  the Go loop does not return: the result is then \<open>None\<close>.
\<close>

partial_function (option) getPairsUnsafe_loop ::
  "(key_val \<Rightarrow> key_val \<Rightarrow> error + bool) \<Rightarrow> 'v heap \<Rightarrow> key_val \<Rightarrow> ptr \<Rightarrow> (error + ptr) option" where
  "getPairsUnsafe_loop equal h k pairs =
     (case pairs of
        None \<Rightarrow> Some (Inr None)
      | Some a \<Rightarrow>
          (case equal (key (cells h a)) k of
             Inl e \<Rightarrow> Some (Inl e)
           | Inr b \<Rightarrow>
               if b then Some (Inr (Some a))
               else getPairsUnsafe_loop equal h k (next' (cells h a))))"

definition getPairsUnsafe :: "'v heap \<Rightarrow> HM \<Rightarrow> key_val \<Rightarrow> (error + ptr \<times> int) option" where
  "getPairsUnsafe h hm k =
     (case getHashIndexAndEqualFunc hm k of
        Inl e \<Rightarrow> Some (Inl e)
      | Inr (hashIndex, equal) \<Rightarrow>
          (case slice_get (slices hm) hashIndex of
             Inl e \<Rightarrow> Some (Inl e)
           | Inr pairs \<Rightarrow>
               (case getPairsUnsafe_loop equal h k pairs of
                  None \<Rightarrow> None
                | Some (Inl e) \<Rightarrow> Some (Inl e)
                | Some (Inr found) \<Rightarrow> Some (Inr (found, hashIndex)))))"

text \<open>\<open>getPairs\<close> is \<open>getPairsUnsafe\<close> inside one shared-lock critical section.\<close>

definition getPairs :: "'v heap \<Rightarrow> HM \<Rightarrow> key_val \<Rightarrow> (error + ptr \<times> int) option" where
  "getPairs h hm k = getPairsUnsafe h hm k"

definition Get :: "'v heap \<Rightarrow> HM \<Rightarrow> key_val \<Rightarrow> (error + 'v option) option" where
  "Get h hm k =
     (case getPairsUnsafe h hm k of
        None \<Rightarrow> None
      | Some (Inl e) \<Rightarrow> Some (Inl e)
      | Some (Inr (pairs, hashIndex)) \<Rightarrow>
          (case pairs of
             Some a \<Rightarrow> Some (Inr (value' (cells h a)))
           | None \<Rightarrow> Some (Inr None)))"

definition Exists :: "'v heap \<Rightarrow> HM \<Rightarrow> key_val \<Rightarrow> (error + bool) option" where
  "Exists h hm k =
     (case getPairsUnsafe h hm k of
        None \<Rightarrow> None
      | Some (Inl e) \<Rightarrow> Some (Inl e)
      | Some (Inr (pairs, hashIndex)) \<Rightarrow> Some (Inr (pairs \<noteq> None)))"

definition GetCount :: "HM \<Rightarrow> 64 word" where
  "GetCount hm = count hm"

section \<open>Put\<close>

text \<open>
  \<open>Put\<close> runs two critical sections: \<open>getPairs\<close> under the shared lock, then the
  rest of its body under the exclusive lock. \<open>Put_locked\<close> is that second section,
  given what the first returned; \<open>Put\<close> runs one after the other with nothing in
  between.
\<close>

definition Put_locked ::
  "'v heap \<Rightarrow> HM \<Rightarrow> key_val \<Rightarrow> 'v option \<Rightarrow> ptr \<times> int \<Rightarrow> error + 'v heap \<times> HM" where
  "Put_locked h hm k v r =
     (case r of (pairs, hashIndex) \<Rightarrow>
        (case pairs of
           None \<Rightarrow>
             (case alloc h \<lparr>key = k, value' = v, last' = None, next' = None\<rparr> of
                (newPairs, h1) \<Rightarrow>
                  (case slice_get (slices hm) hashIndex of
                     Inl e \<Rightarrow> Inl e
                   | Inr (Some f) \<Rightarrow>
                       (case last' (cells h1 f) of
                          None \<Rightarrow> Inl NilDeref
                        | Some l \<Rightarrow>
                            (let h2 = upd h1 l (\<lambda>c. c\<lparr>next' := Some newPairs\<rparr>);
                                 h3 = upd h2 f (\<lambda>c. c\<lparr>last' := Some newPairs\<rparr>)
                             in Inr (h3, hm\<lparr>count := count hm + 1\<rparr>)))
                   | Inr None \<Rightarrow>
                       (let h2 = upd h1 newPairs (\<lambda>c. c\<lparr>last' := Some newPairs\<rparr>)
                        in Inr (h2, hm\<lparr>slices := (slices hm)[nat hashIndex := Some newPairs],
                                       count := count hm + 1\<rparr>))))
         | Some a \<Rightarrow> Inr (upd h a (\<lambda>c. c\<lparr>value' := v\<rparr>), hm)))"

definition Put :: "'v heap \<Rightarrow> HM \<Rightarrow> key_val \<Rightarrow> 'v option \<Rightarrow> (error + 'v heap \<times> HM) option" where
  "Put h hm k v =
     (case getPairs h hm k of
        None \<Rightarrow> None
      | Some (Inl e) \<Rightarrow> Some (Inl e)
      | Some (Inr r) \<Rightarrow> Some (Put_locked h hm k v r))"

section \<open>Removal\<close>

definition setPairsEmpty :: "'v heap \<Rightarrow> nat \<Rightarrow> 'v heap" where
  "setPairsEmpty h a =
     upd h a (\<lambda>c. c\<lparr>key := (case key c of KBytes b \<Rightarrow> KBytes [] | KString s \<Rightarrow> KNil | x \<Rightarrow> x),
                     value' := None, last' := None, next' := None\<rparr>)"

text \<open>
  The branch of \<open>removePairs\<close> taken at the node \<open>a\<close> whose key is equal: unlink it,
  call \<open>updateFunc\<close> when there is one, scrub the node, decrement \<open>count\<close>. The flag
  says whether \<open>updateFunc\<close> is non-nil; the list returned holds the arguments it was
  called with.
\<close>

definition removePairs_found ::
  "'v heap \<Rightarrow> HM \<Rightarrow> bool \<Rightarrow> int \<Rightarrow> ptr \<Rightarrow> ptr \<Rightarrow> nat \<Rightarrow> error + 'v heap \<times> HM \<times> 'v option list" where
  "removePairs_found h hm updateFunc hashIndex firstPairs prevPairs a =
     (case
        (case prevPairs of
           Some p \<Rightarrow>
             (let h1 = upd h p (\<lambda>c. c\<lparr>next' := next' (cells h a)\<rparr>)
              in if next' (cells h1 a) = None
                 then (case firstPairs of
                         None \<Rightarrow> Inl NilDeref
                       | Some f \<Rightarrow> Inr (upd h1 f (\<lambda>c. c\<lparr>last' := Some p\<rparr>), hm))
                 else Inr (h1, hm))
         | None \<Rightarrow>
             (let h1 = (case next' (cells h a) of
                          Some n \<Rightarrow> upd h n (\<lambda>c. c\<lparr>last' := last' (cells h a)\<rparr>)
                        | None \<Rightarrow> h)
              in Inr (h1, hm\<lparr>slices := (slices hm)[nat hashIndex := next' (cells h1 a)]\<rparr>)))
      of
        Inl e \<Rightarrow> Inl e
      | Inr (h2, hm2) \<Rightarrow>
          Inr (setPairsEmpty h2 a, hm2\<lparr>count := count hm2 - 1\<rparr>,
               if updateFunc then [value' (cells h2 a)] else []))"

partial_function (option) removePairs_loop ::
  "(key_val \<Rightarrow> key_val \<Rightarrow> error + bool) \<Rightarrow> 'v heap \<Rightarrow> HM \<Rightarrow> key_val \<Rightarrow> bool \<Rightarrow> int \<Rightarrow> ptr \<Rightarrow> ptr \<Rightarrow> ptr
     \<Rightarrow> (error + 'v heap \<times> HM \<times> 'v option list) option" where
  "removePairs_loop equal h hm k updateFunc hashIndex firstPairs prevPairs pairs =
     (case pairs of
        None \<Rightarrow> Some (Inr (h, hm, []))
      | Some a \<Rightarrow>
          (case equal (key (cells h a)) k of
             Inl e \<Rightarrow> Some (Inl e)
           | Inr b \<Rightarrow>
               if b then Some (removePairs_found h hm updateFunc hashIndex firstPairs prevPairs a)
               else removePairs_loop equal h hm k updateFunc hashIndex firstPairs (Some a)
                      (next' (cells h a))))"

definition removePairs ::
  "'v heap \<Rightarrow> HM \<Rightarrow> key_val \<Rightarrow> bool \<Rightarrow> (error + 'v heap \<times> HM \<times> 'v option list) option" where
  "removePairs h hm k updateFunc =
     (case getHashIndexAndEqualFunc hm k of
        Inl e \<Rightarrow> Some (Inl e)
      | Inr (hashIndex, equal) \<Rightarrow>
          (case slice_get (slices hm) hashIndex of
             Inl e \<Rightarrow> Some (Inl e)
           | Inr pairs \<Rightarrow>
               removePairs_loop equal h hm k updateFunc hashIndex pairs None pairs))"

text \<open>\<open>Remove\<close> and \<open>RemoveUnsafe\<close> pass no callback; \<open>RemoveAndUpdate\<close> passes one.\<close>

definition Remove :: "'v heap \<Rightarrow> HM \<Rightarrow> key_val \<Rightarrow> (error + 'v heap \<times> HM) option" where
  "Remove h hm k =
     (case removePairs h hm k False of
        None \<Rightarrow> None
      | Some (Inl e) \<Rightarrow> Some (Inl e)
      | Some (Inr (h1, hm1, calls)) \<Rightarrow> Some (Inr (h1, hm1)))"

definition RemoveUnsafe :: "'v heap \<Rightarrow> HM \<Rightarrow> key_val \<Rightarrow> (error + 'v heap \<times> HM) option" where
  "RemoveUnsafe h hm k = Remove h hm k"

definition RemoveAndUpdate ::
  "'v heap \<Rightarrow> HM \<Rightarrow> key_val \<Rightarrow> (error + 'v heap \<times> HM \<times> 'v option list) option" where
  "RemoveAndUpdate h hm k = removePairs h hm k True"

section \<open>IterateAndUpdate\<close>

text \<open>
  The inner loop of \<open>IterateAndUpdate\<close> from the node \<open>a\<close>. The callback is a
  function of the key and the value; \<open>calls\<close> records the arguments of every call
  made so far, in order.
\<close>

partial_function (option) IterateAndUpdate_chain ::
  "(key_val \<Rightarrow> 'v option \<Rightarrow> bool) \<Rightarrow> 'v heap \<Rightarrow> HM \<Rightarrow> nat \<Rightarrow> (key_val \<times> 'v option) list
     \<Rightarrow> (error + 'v heap \<times> HM \<times> (key_val \<times> 'v option) list) option" where
  "IterateAndUpdate_chain isValidAndUpdateFunc h hm a calls =
     (let nextPairs = next' (cells h a);
          calls1 = calls @ [(key (cells h a), value' (cells h a))]
      in case (if isValidAndUpdateFunc (key (cells h a)) (value' (cells h a)) = False
               then removePairs h hm (key (cells h a)) False
               else Some (Inr (h, hm, [])))
         of
           None \<Rightarrow> None
         | Some (Inl e) \<Rightarrow> Some (Inl e)
         | Some (Inr (h1, hm1, u)) \<Rightarrow>
             (case nextPairs of
                None \<Rightarrow> Some (Inr (h1, hm1, calls1))
              | Some n \<Rightarrow> IterateAndUpdate_chain isValidAndUpdateFunc h1 hm1 n calls1))"

text \<open>
  The outer \<open>range\<close> loop: the length of \<open>hm.slices\<close> is fixed when the loop starts,
  and element \<open>i\<close> is read when the loop reaches it.
\<close>

fun IterateAndUpdate_buckets ::
  "(key_val \<Rightarrow> 'v option \<Rightarrow> bool) \<Rightarrow> 'v heap \<Rightarrow> HM \<Rightarrow> nat list \<Rightarrow> (key_val \<times> 'v option) list
     \<Rightarrow> (error + 'v heap \<times> HM \<times> (key_val \<times> 'v option) list) option" where
  "IterateAndUpdate_buckets f h hm [] calls = Some (Inr (h, hm, calls))"
| "IterateAndUpdate_buckets f h hm (i # is) calls =
     (case slice_get (slices hm) (int i) of
        Inl e \<Rightarrow> Some (Inl e)
      | Inr None \<Rightarrow> IterateAndUpdate_buckets f h hm is calls
      | Inr (Some a) \<Rightarrow>
          (case IterateAndUpdate_chain f h hm a calls of
             None \<Rightarrow> None
           | Some (Inl e) \<Rightarrow> Some (Inl e)
           | Some (Inr (h1, hm1, calls1)) \<Rightarrow> IterateAndUpdate_buckets f h1 hm1 is calls1))"

definition IterateAndUpdate ::
  "(key_val \<Rightarrow> 'v option \<Rightarrow> bool) \<Rightarrow> 'v heap \<Rightarrow> HM
     \<Rightarrow> (error + 'v heap \<times> HM \<times> (key_val \<times> 'v option) list) option" where
  "IterateAndUpdate f h hm = IterateAndUpdate_buckets f h hm [0..<length (slices hm)] []"

section \<open>Expand\<close>

text \<open>
  \<open>Expand\<close> returns the store as it is when the call ends, also when it ends in a
  panic, and the new table when there is one. The source table's record is never
  assigned to; its nodes are written only by \<open>firstPairs.last = pairs\<close>.
\<close>

partial_function (option) Expand_chain ::
  "'v heap \<Rightarrow> HM \<Rightarrow> nat \<Rightarrow> nat \<Rightarrow> ('v heap \<times> (error + HM)) option" where
  "Expand_chain h newhm firstPairs pairs =
     (case Put h newhm (key (cells h pairs)) (value' (cells h pairs)) of
        None \<Rightarrow> None
      | Some (Inl e) \<Rightarrow> Some (h, Inl e)
      | Some (Inr (h1, newhm1)) \<Rightarrow>
          (case next' (cells h1 pairs) of
             Some n \<Rightarrow> Expand_chain h1 newhm1 firstPairs n
           | None \<Rightarrow> Some (upd h1 firstPairs (\<lambda>c. c\<lparr>last' := Some pairs\<rparr>), Inr newhm1)))"

fun Expand_buckets :: "'v heap \<Rightarrow> HM \<Rightarrow> ptr list \<Rightarrow> ('v heap \<times> (error + HM)) option" where
  "Expand_buckets h newhm [] = Some (h, Inr newhm)"
| "Expand_buckets h newhm (None # ps) = Expand_buckets h newhm ps"
| "Expand_buckets h newhm (Some firstPairs # ps) =
     (case Expand_chain h newhm firstPairs firstPairs of
        None \<Rightarrow> None
      | Some (h1, Inl e) \<Rightarrow> Some (h1, Inl e)
      | Some (h1, Inr newhm1) \<Rightarrow> Expand_buckets h1 newhm1 ps)"

definition Expand :: "'v heap \<Rightarrow> HM \<Rightarrow> 64 word \<Rightarrow> ('v heap \<times> (error + HM)) option" where
  "Expand h hm capacity0 =
     (if capacity0 \<le>s count hm then Some (h, Inl CapacityTooSmall)
      else (case New capacity0 of
              Inl e \<Rightarrow> Some (h, Inl e)
            | Inr newhm \<Rightarrow> Expand_buckets h newhm (slices hm)))"

section \<open>Iterate\<close>

text \<open>
  \<open>Iterate\<close> calls \<open>readFunc\<close> on every entry, bucket by bucket and along each chain;
  the list returned holds the arguments of the calls, in order.
\<close>

partial_function (option) Iterate_chain ::
  "'v heap \<Rightarrow> nat \<Rightarrow> (key_val \<times> 'v option) list \<Rightarrow> (key_val \<times> 'v option) list option" where
  "Iterate_chain h a calls =
     (let calls1 = calls @ [(key (cells h a), value' (cells h a))]
      in case next' (cells h a) of
           None \<Rightarrow> Some calls1
         | Some n \<Rightarrow> Iterate_chain h n calls1)"

fun Iterate_buckets ::
  "'v heap \<Rightarrow> ptr list \<Rightarrow> (key_val \<times> 'v option) list \<Rightarrow> (key_val \<times> 'v option) list option" where
  "Iterate_buckets h [] calls = Some calls"
| "Iterate_buckets h (None # ps) calls = Iterate_buckets h ps calls"
| "Iterate_buckets h (Some a # ps) calls =
     (case Iterate_chain h a calls of
        None \<Rightarrow> None
      | Some calls1 \<Rightarrow> Iterate_buckets h ps calls1)"

definition Iterate :: "'v heap \<Rightarrow> HM \<Rightarrow> (key_val \<times> 'v option) list option" where
  "Iterate h hm = Iterate_buckets h (slices hm) []"

section \<open>Definitions used to state and prove the properties\<close>

text \<open>What \<open>New\<close> computes: the exponent of the capacity, and the table of that exponent.\<close>

definition New_exp :: "64 word \<Rightarrow> nat" where
  "New_exp n = (if sint n < 16 then 4 else ceil_log2 (nat (sint n)))"

definition New_table :: "nat \<Rightarrow> HM" where
  "New_table k = \<lparr>slices = replicate (2 ^ k) None, capacity = 2 ^ k,
      mask_uint32 = ucast (mask k :: 64 word), mask_uint64 = mask k, mask_int = mask k, count = 0\<rparr>"

datatype key_dom = DBytes | DString | DInt | DUint64 | DUint32 | DNone

fun dom_of :: "key_val \<Rightarrow> key_dom" where
  "dom_of (KBytes b) = DBytes"
| "dom_of (KString s) = DString"
| "dom_of (KInt i) = DInt"
| "dom_of (KUint64 u) = DUint64"
| "dom_of (KUint32 u) = DUint32"
| "dom_of KNil = DNone"
| "dom_of KOther = DNone"

definition supported :: "key_val \<Rightarrow> bool" where
  "supported k = (dom_of k \<noteq> DNone)"

definition hashIndex :: "HM \<Rightarrow> key_val \<Rightarrow> int" where
  "hashIndex hm k = (case getHashIndexAndEqualFunc hm k of Inl e \<Rightarrow> 0 | Inr (i, eq) \<Rightarrow> i)"

definition equalFunc :: "key_val \<Rightarrow> key_val \<Rightarrow> key_val \<Rightarrow> error + bool" where
  "equalFunc k = (case getHashIndexAndEqualFunc \<lparr>slices = [], capacity = 0, mask_uint32 = 0,
       mask_uint64 = 0, mask_int = 0, count = 0\<rparr> k of Inl e \<Rightarrow> (\<lambda>x y. Inl e) | Inr (i, eq) \<Rightarrow> eq)"

definition bucket_of :: "HM \<Rightarrow> key_val \<Rightarrow> nat" where
  "bucket_of hm k = nat (hashIndex hm k)"

definition hm_shape :: "HM \<Rightarrow> bool" where
  "hm_shape hm = (\<exists>k. 4 \<le> k \<and> k \<le> 62 \<and> capacity hm = 2 ^ k \<and> length (slices hm) = 2 ^ k
      \<and> mask_int hm = mask k \<and> mask_uint64 hm = mask k \<and> mask_uint32 hm = ucast (mask k :: 64 word))"

fun chain :: "'v heap \<Rightarrow> ptr \<Rightarrow> nat list \<Rightarrow> bool" where
  "chain h p [] = (p = None)"
| "chain h p (a # as) = (p = Some a \<and> chain h (next' (cells h a)) as)"

definition entry :: "'v heap \<Rightarrow> nat \<Rightarrow> key_val \<times> 'v option" where
  "entry h a = (key (cells h a), value' (cells h a))"

definition bucket_inv :: "'v heap \<Rightarrow> HM \<Rightarrow> nat \<Rightarrow> nat list \<Rightarrow> bool" where
  "bucket_inv h hm i as =
     (chain h (slices hm ! i) as
      \<and> (\<forall>a\<in>set as. a < fresh h \<and> supported (key (cells h a)) \<and> bucket_of hm (key (cells h a)) = i)
      \<and> distinct (map (\<lambda>a. key (cells h a)) as)
      \<and> (\<forall>a\<in>set as. \<forall>b\<in>set as. dom_of (key (cells h a)) = dom_of (key (cells h b)))
      \<and> (as \<noteq> [] \<longrightarrow> last' (cells h (hd as)) = Some (last as)))"

definition table_inv :: "'v heap \<Rightarrow> HM \<Rightarrow> nat list list \<Rightarrow> bool" where
  "table_inv h hm bs =
     (hm_shape hm \<and> length bs = length (slices hm)
      \<and> (\<forall>i<length bs. bucket_inv h hm i (bs ! i))
      \<and> count hm = of_nat (length (concat bs)))"

definition lookup :: "'v heap \<Rightarrow> HM \<Rightarrow> nat list list \<Rightarrow> key_val \<Rightarrow> 'v option option" where
  "lookup h hm bs k = map_of (map (entry h) (bs ! bucket_of hm k)) k"

definition compat :: "'v heap \<Rightarrow> nat list \<Rightarrow> key_val \<Rightarrow> bool" where
  "compat h as k = (\<forall>a\<in>set as. dom_of (key (cells h a)) = dom_of k)"

definition find_key :: "'v heap \<Rightarrow> key_val \<Rightarrow> nat list \<Rightarrow> nat option" where
  "find_key h k as = find (\<lambda>a. key (cells h a) = k) as"

definition abs_table :: "'v heap \<Rightarrow> nat list list \<Rightarrow> (key_val \<times> 'v option) list list" where
  "abs_table h bs = map (map (entry h)) bs"

text \<open>same table record fields apart from slices and count\<close>

definition same_shape :: "HM \<Rightarrow> HM \<Rightarrow> bool" where
  "same_shape hm hm' = (mask_uint32 hm' = mask_uint32 hm \<and> mask_uint64 hm' = mask_uint64 hm
     \<and> mask_int hm' = mask_int hm \<and> capacity hm' = capacity hm
     \<and> length (slices hm') = length (slices hm))"

definition abs_inv :: "HM \<Rightarrow> (key_val \<times> 'v option) list list \<Rightarrow> bool" where
  "abs_inv hm T = (hm_shape hm \<and> length T = length (slices hm)
     \<and> (\<forall>i<length T. distinct (map fst (T ! i))
           \<and> (\<forall>e\<in>set (T ! i). supported (fst e) \<and> bucket_of hm (fst e) = i
                 \<and> (\<forall>e'\<in>set (T ! i). dom_of (fst e) = dom_of (fst e')))))"

definition gmap :: "'v heap \<Rightarrow> nat list list \<Rightarrow> key_val \<Rightarrow> 'v option option" where
  "gmap h bs = map_of (concat (abs_table h bs))"

text \<open>
  A sequence of \<open>Put\<close> and \<open>Remove\<close> calls, run in order; a panic ends the run.
  \<open>model\<close> is what the specification says of the result: the keys that were Put and
  not Removed afterwards, each with the value of its most recent Put.
\<close>

datatype 'v op = OpPut key_val "'v option" | OpRemove key_val

fun apply_op :: "'v heap \<Rightarrow> HM \<Rightarrow> 'v op \<Rightarrow> (error + 'v heap \<times> HM) option" where
  "apply_op h hm (OpPut k v) = Put h hm k v"
| "apply_op h hm (OpRemove k) = Remove h hm k"

fun run :: "'v heap \<Rightarrow> HM \<Rightarrow> 'v op list \<Rightarrow> (error + 'v heap \<times> HM) option" where
  "run h hm [] = Some (Inr (h, hm))"
| "run h hm (x # xs) =
     (case apply_op h hm x of
        None \<Rightarrow> None
      | Some (Inl e) \<Rightarrow> Some (Inl e)
      | Some (Inr (h1, hm1)) \<Rightarrow> run h1 hm1 xs)"

fun model_op :: "'v op \<Rightarrow> (key_val \<rightharpoonup> 'v option) \<Rightarrow> (key_val \<rightharpoonup> 'v option)" where
  "model_op (OpPut k v) m = m(k \<mapsto> v)"
| "model_op (OpRemove k) m = m(k := None)"

definition model :: "'v op list \<Rightarrow> (key_val \<rightharpoonup> 'v option)" where
  "model ops = fold model_op ops Map.empty"

fun op_key :: "'v op \<Rightarrow> key_val" where
  "op_key (OpPut k v) = k"
| "op_key (OpRemove k) = k"

definition all_dom :: "'v heap \<Rightarrow> nat list list \<Rightarrow> key_dom \<Rightarrow> bool" where
  "all_dom h bs d = (\<forall>k\<in>dom (gmap h bs). dom_of k = d)"

text \<open>A store in which nothing has been allocated.\<close>

definition empty_heap :: "'v heap" where
  "empty_heap = \<lparr>cells = (\<lambda>a. \<lparr>key = KNil, value' = None, last' = None, next' = None\<rparr>), fresh = 0\<rparr>"

text \<open>
  Two or more goroutines calling \<open>Put\<close> on one table. The lock makes each critical section
  atomic, and \<open>Put\<close> has two of them: \<open>getPairs\<close> (shared lock), then the rest of its body
  (exclusive lock). A thread is \<open>Ready\<close> before its first section, \<open>Checked\<close> with what
  \<open>getPairs\<close> returned between the two, and \<open>Finished\<close> or \<open>Panicked\<close> afterwards.
  A schedule names the thread that runs its next critical section.
\<close>

datatype 'v put_thread =
    Ready key_val "'v option"
  | Checked key_val "'v option" "ptr \<times> int"
  | Finished
  | Panicked error

fun step_thread :: "'v heap \<Rightarrow> HM \<Rightarrow> 'v put_thread \<Rightarrow> ('v heap \<times> HM \<times> 'v put_thread) option" where
  "step_thread h hm (Ready k v) =
     (case getPairs h hm k of
        None \<Rightarrow> None
      | Some (Inl e) \<Rightarrow> Some (h, hm, Panicked e)
      | Some (Inr r) \<Rightarrow> Some (h, hm, Checked k v r))"
| "step_thread h hm (Checked k v r) =
     (case Put_locked h hm k v r of
        Inl e \<Rightarrow> Some (h, hm, Panicked e)
      | Inr (h1, hm1) \<Rightarrow> Some (h1, hm1, Finished))"
| "step_thread h hm Finished = Some (h, hm, Finished)"
| "step_thread h hm (Panicked e) = Some (h, hm, Panicked e)"

fun run_schedule ::
  "'v heap \<Rightarrow> HM \<Rightarrow> 'v put_thread list \<Rightarrow> nat list \<Rightarrow> ('v heap \<times> HM \<times> 'v put_thread list) option" where
  "run_schedule h hm ts [] = Some (h, hm, ts)"
| "run_schedule h hm ts (i # is) =
     (if i < length ts
      then (case step_thread h hm (ts ! i) of
              None \<Rightarrow> None
            | Some (h1, hm1, t) \<Rightarrow> run_schedule h1 hm1 (ts[i := t]) is)
      else run_schedule h hm ts is)"

section \<open>Arithmetic of \<open>New\<close>\<close>

lemma ceil_log2_upper: "n \<le> 2 ^ ceil_log2 n"
proof (induction n rule: ceil_log2.induct)
  case (1 n)
  show ?case
  proof (cases "n \<le> 1")
    case True
    then show ?thesis by (simp add: ceil_log2.simps)
  next
    case False
    then have "(n + 1) div 2 \<le> 2 ^ ceil_log2 ((n + 1) div 2)" using 1 by simp
    then have "n \<le> 2 * 2 ^ ceil_log2 ((n + 1) div 2)" by linarith
    with False show ?thesis by (subst ceil_log2.simps) simp
  qed
qed

lemma ceil_log2_le: "n \<le> 2 ^ m \<Longrightarrow> ceil_log2 n \<le> m"
proof (induction n arbitrary: m rule: ceil_log2.induct)
  case (1 n)
  show ?case
  proof (cases "n \<le> 1")
    case True
    then show ?thesis by (simp add: ceil_log2.simps)
  next
    case False
    with 1(2) have "m \<noteq> 0" by (cases m) auto
    then obtain m' where m: "m = Suc m'" by (cases m) auto
    with 1(2) have "(n + 1) div 2 \<le> 2 ^ m'" by simp
    with 1(1) False have "ceil_log2 ((n + 1) div 2) \<le> m'" by simp
    with False m show ?thesis by (subst ceil_log2.simps) simp
  qed
qed

lemma ceil_log2_lower: "ceil_log2 n = Suc j \<Longrightarrow> 2 ^ j < n"
proof (rule ccontr)
  assume a: "ceil_log2 n = Suc j" and "\<not> 2 ^ j < n"
  then have "n \<le> 2 ^ j" by simp
  then have "ceil_log2 n \<le> j" by (rule ceil_log2_le)
  with a show False by simp
qed

lemma ceil_log2_ge4: "16 \<le> n \<Longrightarrow> 4 \<le> ceil_log2 n"
proof (rule ccontr)
  assume n: "16 \<le> n" and "\<not> 4 \<le> ceil_log2 n"
  then have "ceil_log2 n \<le> 3" by simp
  then have "(2::nat) ^ ceil_log2 n \<le> 2 ^ 3" by (rule power_increasing) simp
  with ceil_log2_upper[of n] n show False by simp
qed

lemma sint_small_64: "uint (w :: 64 word) < 2 ^ 63 \<Longrightarrow> sint w = uint w"
proof -
  assume a: "uint w < 2 ^ 63"
  have "- (2 ^ 63) \<le> (0::int)" by simp
  also have "0 \<le> uint w" by simp
  finally have "signed_take_bit 63 (uint w) = uint w"
    using a by (rule signed_take_bit_int_eq_self)
  then show ?thesis by (simp add: sint_uint)
qed

lemma pow2_lt_63: "k \<le> 62 \<Longrightarrow> (2::int) ^ k < 2 ^ 63"
  by (rule power_strict_increasing) simp_all

lemma pow2_lt_64: "k \<le> 62 \<Longrightarrow> (2::int) ^ k < 2 ^ 64"
  by (rule power_strict_increasing) simp_all

lemma uint_pow2_64: "k \<le> 62 \<Longrightarrow> uint (2 ^ k :: 64 word) = 2 ^ k"
proof -
  assume "k \<le> 62"
  then have "take_bit 64 ((2::int) ^ k) = 2 ^ k"
    by (intro take_bit_int_eq_self pow2_lt_64) simp_all
  then show ?thesis by transfer simp
qed

lemma sint_pow2_64: "k \<le> 62 \<Longrightarrow> sint (2 ^ k :: 64 word) = 2 ^ k"
  using pow2_lt_63[of k] by (simp add: sint_small_64 uint_pow2_64)

lemma uint_mask_64: "k \<le> 62 \<Longrightarrow> uint (mask k :: 64 word) = 2 ^ k - 1"
proof -
  assume "k \<le> 62"
  then have "min 64 k = k" by simp
  then have "uint (mask k :: 64 word) = mask k" by (simp only: uint_mask_eq len_bit0 len_num1 mult_2 one_add_one) simp
  then show ?thesis by (simp only: mask_eq_exp_minus_1)
qed

lemma sint_mask_64: "k \<le> 62 \<Longrightarrow> sint (mask k :: 64 word) = 2 ^ k - 1"
proof -
  assume k: "k \<le> 62"
  then have "uint (mask k :: 64 word) < 2 ^ 63"
    using pow2_lt_63[of k] by (simp only: uint_mask_64) simp
  then show ?thesis using k by (simp only: sint_small_64 uint_mask_64)
qed

lemma ucast_mask_32: "k \<le> 32 \<Longrightarrow> (ucast (mask k :: 64 word) :: 32 word) = mask k"
  by (simp only: ucast_mask_eq) simp

lemma uint_mask_32: "k \<le> 32 \<Longrightarrow> uint (ucast (mask k :: 64 word) :: 32 word) = 2 ^ k - 1"
proof -
  assume k: "k \<le> 32"
  then have e1: "(ucast (mask k :: 64 word) :: 32 word) = mask k" by (rule ucast_mask_32)
  from k have e2: "uint (mask k :: 32 word) = mask k" by (simp only: uint_mask_eq) simp
  show ?thesis by (simp only: e1 e2) (simp only: mask_eq_exp_minus_1)
qed

lemma New_exp_bounds: "sint n \<le> 2 ^ 62 \<Longrightarrow> 4 \<le> New_exp n \<and> New_exp n \<le> 62"
proof -
  assume a: "sint n \<le> 2 ^ 62"
  show ?thesis
  proof (cases "sint n < 16")
    case True
    then show ?thesis by (simp add: New_exp_def)
  next
    case False
    then have "16 \<le> nat (sint n)" by simp
    then have l: "4 \<le> ceil_log2 (nat (sint n))" by (rule ceil_log2_ge4)
    from a have "nat (sint n) \<le> 2 ^ 62" by (simp add: nat_le_iff)
    then have "ceil_log2 (nat (sint n)) \<le> 62" by (rule ceil_log2_le)
    with l False show ?thesis by (simp add: New_exp_def)
  qed
qed

lemma New_eq: "sint n \<le> 2 ^ 62 \<Longrightarrow> New n = Inr (New_table (New_exp n))"
proof -
  assume a: "sint n \<le> 2 ^ 62"
  then have b: "New_exp n \<le> 62" using New_exp_bounds by blast
  have c: "(if n <s 16 then (16 :: 64 word) else push_bit (ceil_log2 (nat (sint n))) 1) = 2 ^ New_exp n"
    by (simp add: New_exp_def word_sless_alt push_bit_of_1)
  have d: "sint (2 ^ New_exp n :: 64 word) = 2 ^ New_exp n" using b by (rule sint_pow2_64)
  show ?thesis
    unfolding New_def Let_def c
    by (simp add: d New_table_def mask_eq_exp_minus_1 nat_power_eq)
qed

section \<open>C8: the capacity and the masks of a new table\<close>

text \<open>
  C8 (amended). For every requested capacity \<open>n \<le> 2 ^ 32\<close>, \<open>New n\<close> returns a table
  whose capacity is \<open>n\<close> rounded up to the next power of two with a floor of 16
  (a power \<open>2 ^ k\<close> with \<open>k \<ge> 4\<close> and \<open>n \<le> 2 ^ k\<close> that is 16 or has
  \<open>2 ^ (k - 1) < n\<close>), with that many buckets, whose three masks all equal the
  capacity minus 1 and whose count is 0.
\<close>

theorem New_capacity_rounding:
  assumes "sint n \<le> 2 ^ 32"
  shows "\<exists>hm k. New n = Inr hm \<and> 4 \<le> k \<and> sint (capacity hm) = 2 ^ k \<and> sint n \<le> 2 ^ k
           \<and> (k = 4 \<or> 2 ^ (k - 1) < sint n) \<and> length (slices hm) = 2 ^ k
           \<and> sint (mask_int hm) = sint (capacity hm) - 1
           \<and> uint (mask_uint64 hm) = sint (capacity hm) - 1
           \<and> uint (mask_uint32 hm) = sint (capacity hm) - 1
           \<and> GetCount hm = 0"
proof -
  let ?k = "New_exp n"
  have "(2::int) ^ 32 \<le> 2 ^ 62" by simp
  with assms have n62: "sint n \<le> 2 ^ 62" by (rule order_trans)
  then have new: "New n = Inr (New_table ?k)" by (rule New_eq)
  from n62 have k: "4 \<le> ?k" "?k \<le> 62" using New_exp_bounds by blast+
  have up: "sint n \<le> 2 ^ ?k"
  proof (cases "sint n < 16")
    case True
    then show ?thesis by (simp add: New_exp_def)
  next
    case False
    have "nat (sint n) \<le> 2 ^ ceil_log2 (nat (sint n))" by (rule ceil_log2_upper)
    then have "sint n \<le> int (2 ^ ceil_log2 (nat (sint n)))" by linarith
    with False show ?thesis by (simp add: New_exp_def)
  qed
  have low: "?k = 4 \<or> 2 ^ (?k - 1) < sint n"
  proof (cases "sint n < 16")
    case True
    then show ?thesis by (simp add: New_exp_def)
  next
    case False
    then have e: "?k = ceil_log2 (nat (sint n))" by (simp add: New_exp_def)
    with k obtain j where j: "ceil_log2 (nat (sint n)) = Suc j" by (cases "ceil_log2 (nat (sint n))") auto
    then have "2 ^ j < nat (sint n)" by (rule ceil_log2_lower)
    then have "int (2 ^ j) < sint n" by linarith
    with e j show ?thesis by simp
  qed
  have k32: "?k \<le> 32"
  proof (cases "sint n < 16")
    case True
    then show ?thesis by (simp add: New_exp_def)
  next
    case False
    from assms have "nat (sint n) \<le> 2 ^ 32" by (simp add: nat_le_iff)
    then have "ceil_log2 (nat (sint n)) \<le> 32" by (rule ceil_log2_le)
    with False show ?thesis by (simp add: New_exp_def)
  qed
  have cap: "sint (capacity (New_table ?k)) = 2 ^ ?k"
    using k by (simp add: New_table_def sint_pow2_64)
  have m1: "sint (mask_int (New_table ?k)) = 2 ^ ?k - 1"
    using k by (simp add: New_table_def sint_mask_64)
  have m2: "uint (mask_uint64 (New_table ?k)) = 2 ^ ?k - 1"
    using k by (simp add: New_table_def uint_mask_64)
  have m3: "uint (mask_uint32 (New_table ?k)) = 2 ^ ?k - 1"
    using k32 by (simp add: New_table_def uint_mask_32)
  have len: "length (slices (New_table ?k)) = 2 ^ ?k" by (simp add: New_table_def)
  have cnt: "GetCount (New_table ?k) = 0" by (simp add: New_table_def GetCount_def)
  show ?thesis
    using new k(1) cap up low len m1 m2 m3 cnt by (intro exI[of _ "New_table ?k"] exI[of _ ?k]) simp
qed

lemma New_20: "New 20 = Inr \<lparr>slices = replicate 32 None, capacity = 32, mask_uint32 = 31,
    mask_uint64 = 31, mask_int = 31, count = 0\<rparr>"
  by (simp add: New_def ceil_log2.simps word_sless_alt)

lemma New_5: "New 5 = Inr \<lparr>slices = replicate 16 None, capacity = 16, mask_uint32 = 15,
    mask_uint64 = 15, mask_int = 15, count = 0\<rparr>"
  by (simp add: New_def word_sless_alt)

text \<open>C8, at the inputs the specification names: \<open>New(20)\<close> has capacity 32 and \<open>New(5)\<close> has capacity 16.\<close>

theorem New_capacity_rounding_witness:
  "map_sum id (\<lambda>hm. (sint (capacity hm), length (slices hm), sint (mask_int hm), uint (mask_uint64 hm), uint (mask_uint32 hm))) (New 20)
     = Inr (32, 32, 31, 31, 31)
   \<and> map_sum id (\<lambda>hm. (sint (capacity hm), length (slices hm), sint (mask_int hm), uint (mask_uint64 hm), uint (mask_uint32 hm))) (New 5)
     = Inr (16, 16, 15, 15, 15)"
proof -
  have h: "sint (20 :: 64 word) \<le> 2 ^ 32" by simp
  from New_capacity_rounding[OF h] have "\<exists>hm. New 20 = Inr hm" by blast
  then show ?thesis by (simp add: New_20 New_5)
qed

lemma New_exp_33: "New_exp 8589934592 = 33"
  by (simp add: New_exp_def ceil_log2.simps)

text \<open>
  C8 as stated fails for large capacities: \<open>New(2 ^ 33)\<close> has capacity \<open>2 ^ 33\<close> but
  \<open>mask_uint32 = 2 ^ 32 - 1\<close>, since \<open>uint32(capacity - 1)\<close> truncates; and
  \<open>New(2 ^ 63 - 1)\<close> returns no table, since \<open>1 << 63\<close> is negative and \<open>make\<close>
  panics.
\<close>

theorem New_masks_counterexample:
  "map_sum id (\<lambda>hm. (sint (capacity hm) - 1, uint (mask_uint32 hm))) (New 8589934592)
     = Inr (8589934591, 4294967295)
   \<and> New 9223372036854775807 = Inl MakesliceLen"
proof -
  have "sint (8589934592 :: 64 word) \<le> 2 ^ 62" by simp
  then have a: "New 8589934592 = Inr (New_table 33)" by (simp only: New_eq New_exp_33)
  have b: "sint (capacity (New_table 33)) = 8589934592"
    by (simp add: New_table_def)
  have "uint (ucast (mask 33 :: 64 word) :: 32 word) = mask 32"
    by (simp only: ucast_mask_eq uint_mask_eq) simp
  then have c: "uint (mask_uint32 (New_table 33)) = 4294967295"
    by (simp add: New_table_def mask_eq_exp_minus_1)
  have d: "New 9223372036854775807 = Inl MakesliceLen"
    by (simp add: New_def ceil_log2.simps word_sless_alt)
  show ?thesis by (simp add: a b c d)
qed

lemma getHashIndexAndEqualFunc_eq:
  "getHashIndexAndEqualFunc hm k =
     (if supported k then Inr (hashIndex hm k, equalFunc k) else Inl BadKeyType)"
  by (cases k) (simp_all add: supported_def hashIndex_def equalFunc_def)

lemma equalFunc_same:
  "supported k \<Longrightarrow> dom_of x = dom_of k \<Longrightarrow> equalFunc k x k = Inr (x = k)"
  by (cases k; cases x) (simp_all add: supported_def equalFunc_def)

lemma equalFunc_diff:
  "supported k \<Longrightarrow> dom_of x \<noteq> dom_of k \<Longrightarrow> equalFunc k x k = Inl TypeAssertion"
  by (cases k; cases x) (simp_all add: supported_def equalFunc_def)

lemma hashIndex_range:
  assumes "hm_shape hm"
  shows "0 \<le> hashIndex hm k \<and> hashIndex hm k < int (length (slices hm))"
proof -
  from assms obtain e where e: "4 \<le> e" "e \<le> 62" "length (slices hm) = 2 ^ e"
    "mask_int hm = mask e" "mask_uint64 hm = mask e" "mask_uint32 hm = ucast (mask e :: 64 word)"
    unfolding hm_shape_def by blast
  have len: "int (length (slices hm)) = 2 ^ e" using e(3) by simp
  have m32: "mask_uint32 hm = mask e" using e(2,6) by (simp only: ucast_mask_eq) simp
  have u32: "\<And>w :: 32 word. 0 \<le> uint (w AND mask e) \<and> uint (w AND mask e) < 2 ^ e"
    by (simp add: and_mask_lt_2p)
  have s64: "\<And>w :: 64 word. 0 \<le> sint (w AND mask e) \<and> sint (w AND mask e) < 2 ^ e"
  proof -
    fix w :: "64 word"
    have a: "uint (w AND mask e) < 2 ^ e" by (rule and_mask_lt_2p)
    also have "(2::int) ^ e < 2 ^ 63" using e(2) by (rule pow2_lt_63)
    finally have "sint (w AND mask e) = uint (w AND mask e)" by (rule sint_small_64)
    with a show "0 \<le> sint (w AND mask e) \<and> sint (w AND mask e) < 2 ^ e" by simp
  qed
  have pos: "(0::int) < 2 ^ e" by simp
  show ?thesis
    using u32 s64 pos unfolding len
    by (cases k) (simp_all add: hashIndex_def e(4,5) m32)
qed

lemma find_key_Nil [simp]: "find_key h k [] = None"
  by (simp add: find_key_def)

lemma find_key_Cons [simp]:
  "find_key h k (a # as) = (if key (cells h a) = k then Some a else find_key h k as)"
  by (simp add: find_key_def)

lemma compat_Nil [simp]: "compat h [] k"
  by (simp add: compat_def)

lemma compat_Cons [simp]:
  "compat h (a # as) k = (dom_of (key (cells h a)) = dom_of k \<and> compat h as k)"
  by (simp add: compat_def)

lemma chain_frame:
  "(\<forall>a\<in>set as. next' (cells h' a) = next' (cells h a)) \<Longrightarrow> chain h' p as = chain h p as"
  by (induction as arbitrary: p) auto

lemma chain_unique: "chain h p as \<Longrightarrow> chain h p bs \<Longrightarrow> as = bs"
proof (induction as arbitrary: p bs)
  case Nil
  then show ?case by (cases bs) auto
next
  case (Cons a as)
  then show ?case by (cases bs) auto
qed

lemma loop_find:
  "chain h p as \<Longrightarrow> supported k \<Longrightarrow> compat h as k \<Longrightarrow>
   getPairsUnsafe_loop (equalFunc k) h k p = Some (Inr (find_key h k as))"
proof (induction as arbitrary: p)
  case Nil
  then show ?case by (subst getPairsUnsafe_loop.simps) simp
next
  case (Cons a as)
  from Cons.prems have p: "p = Some a" and c: "chain h (next' (cells h a)) as"
    and d: "dom_of (key (cells h a)) = dom_of k" and cm: "compat h as k" by simp_all
  have eq: "equalFunc k (key (cells h a)) k = Inr (key (cells h a) = k)"
    using Cons.prems(2) d by (rule equalFunc_same)
  have ih: "getPairsUnsafe_loop (equalFunc k) h k (next' (cells h a)) = Some (Inr (find_key h k as))"
    using c Cons.prems(2) cm by (rule Cons.IH)
  show ?case
    by (subst getPairsUnsafe_loop.simps) (simp add: p eq ih)
qed

lemma loop_panic:
  "chain h p (xs @ a # ys) \<Longrightarrow> supported k \<Longrightarrow> compat h xs k \<Longrightarrow> find_key h k xs = None \<Longrightarrow>
   dom_of (key (cells h a)) \<noteq> dom_of k \<Longrightarrow>
   getPairsUnsafe_loop (equalFunc k) h k p = Some (Inl TypeAssertion)"
proof (induction xs arbitrary: p)
  case Nil
  then have p: "p = Some a" by simp
  have "equalFunc k (key (cells h a)) k = Inl TypeAssertion"
    using Nil.prems(2,5) by (rule equalFunc_diff)
  then show ?case by (subst getPairsUnsafe_loop.simps) (simp add: p)
next
  case (Cons x xs)
  from Cons.prems have p: "p = Some x" and c: "chain h (next' (cells h x)) (xs @ a # ys)"
    and d: "dom_of (key (cells h x)) = dom_of k" and cm: "compat h xs k"
    and ne: "key (cells h x) \<noteq> k" and f: "find_key h k xs = None"
    by (simp_all split: if_splits)
  have eq: "equalFunc k (key (cells h x)) k = Inr (key (cells h x) = k)"
    using Cons.prems(2) d by (rule equalFunc_same)
  have ih: "getPairsUnsafe_loop (equalFunc k) h k (next' (cells h x)) = Some (Inl TypeAssertion)"
    using c Cons.prems(2) cm f Cons.prems(5) by (rule Cons.IH)
  show ?case
    by (subst getPairsUnsafe_loop.simps) (simp add: p eq ne ih)
qed

lemma map_of_entries:
  "map_of (map (entry h) as) k = map_option (\<lambda>a. value' (cells h a)) (find_key h k as)"
  by (induction as) (auto simp: entry_def)

lemma find_key_in: "find_key h k as = Some a \<Longrightarrow> a \<in> set as \<and> key (cells h a) = k"
  by (induction as) (auto split: if_splits)

lemma find_key_None: "find_key h k as = None \<longleftrightarrow> (\<forall>a\<in>set as. key (cells h a) \<noteq> k)"
  by (induction as) auto

lemma slice_get_in: "0 \<le> i \<Longrightarrow> i < int (length s) \<Longrightarrow> slice_get s i = Inr (s ! nat i)"
  by (simp add: slice_get_def)

lemma table_inv_bucket:
  "table_inv h hm bs \<Longrightarrow> bucket_of hm k < length bs \<and> bucket_inv h hm (bucket_of hm k) (bs ! bucket_of hm k)"
proof -
  assume t: "table_inv h hm bs"
  then have s: "hm_shape hm" and l: "length bs = length (slices hm)" by (simp_all add: table_inv_def)
  from hashIndex_range[OF s, of k] have "nat (hashIndex hm k) < length (slices hm)" by linarith
  with l have "bucket_of hm k < length bs" by (simp only: bucket_of_def)
  with t show ?thesis by (simp add: table_inv_def)
qed

lemma table_inv_slice:
  "table_inv h hm bs \<Longrightarrow> slice_get (slices hm) (hashIndex hm k) = Inr (slices hm ! bucket_of hm k)"
proof -
  assume t: "table_inv h hm bs"
  then have s: "hm_shape hm" by (simp add: table_inv_def)
  from hashIndex_range[OF s, of k] show ?thesis
    by (simp add: slice_get_def bucket_of_def)
qed

lemma bucket_inv_same_dom:
  "bucket_inv h hm i as \<Longrightarrow> x \<in> set as \<Longrightarrow> y \<in> set as \<Longrightarrow>
   dom_of (key (cells h x)) = dom_of (key (cells h y))"
  unfolding bucket_inv_def by blast

lemma bucket_inv_not_compat:
  assumes "bucket_inv h hm i as" "\<not> compat h as k"
  shows "\<exists>a ys. as = a # ys \<and> dom_of (key (cells h a)) \<noteq> dom_of k"
proof -
  from assms(2) obtain x where x: "x \<in> set as" "dom_of (key (cells h x)) \<noteq> dom_of k"
    unfolding compat_def by blast
  from x(1) obtain a ys where as: "as = a # ys" by (cases as) simp_all
  then have "a \<in> set as" by simp
  with assms(1) have "dom_of (key (cells h a)) = dom_of (key (cells h x))"
    using x(1) by (rule bucket_inv_same_dom)
  with x(2) as show ?thesis by simp
qed

lemma getPairsUnsafe_unsupported:
  "\<not> supported k \<Longrightarrow> getPairsUnsafe h hm k = Some (Inl BadKeyType)"
  by (simp add: getPairsUnsafe_def getHashIndexAndEqualFunc_eq)

lemma getPairsUnsafe_compat:
  assumes "table_inv h hm bs" "supported k" "compat h (bs ! bucket_of hm k) k"
  shows "getPairsUnsafe h hm k = Some (Inr (find_key h k (bs ! bucket_of hm k), hashIndex hm k))"
proof -
  from table_inv_bucket[OF assms(1)] have "bucket_inv h hm (bucket_of hm k) (bs ! bucket_of hm k)" by simp
  then have c: "chain h (slices hm ! bucket_of hm k) (bs ! bucket_of hm k)" by (simp add: bucket_inv_def)
  have l: "getPairsUnsafe_loop (equalFunc k) h k (slices hm ! bucket_of hm k)
       = Some (Inr (find_key h k (bs ! bucket_of hm k)))"
    using c assms(2,3) by (rule loop_find)
  show ?thesis
    by (simp add: getPairsUnsafe_def getHashIndexAndEqualFunc_eq assms(2) table_inv_slice[OF assms(1)] l)
qed

lemma getPairsUnsafe_not_compat:
  assumes "table_inv h hm bs" "supported k" "\<not> compat h (bs ! bucket_of hm k) k"
  shows "getPairsUnsafe h hm k = Some (Inl TypeAssertion)"
proof -
  from table_inv_bucket[OF assms(1)] have b: "bucket_inv h hm (bucket_of hm k) (bs ! bucket_of hm k)" by simp
  then have c: "chain h (slices hm ! bucket_of hm k) (bs ! bucket_of hm k)" by (simp add: bucket_inv_def)
  from bucket_inv_not_compat[OF b assms(3)] obtain a ys where
    as: "bs ! bucket_of hm k = a # ys" and d: "dom_of (key (cells h a)) \<noteq> dom_of k" by blast
  from c as have c': "chain h (slices hm ! bucket_of hm k) ([] @ a # ys)" by simp
  have l: "getPairsUnsafe_loop (equalFunc k) h k (slices hm ! bucket_of hm k) = Some (Inl TypeAssertion)"
    using c' assms(2) _ _ d by (rule loop_panic) simp_all
  show ?thesis
    by (simp add: getPairsUnsafe_def getHashIndexAndEqualFunc_eq assms(2) table_inv_slice[OF assms(1)] l)
qed

lemma Get_compat:
  assumes "table_inv h hm bs" "supported k" "compat h (bs ! bucket_of hm k) k"
  shows "Get h hm k = Some (Inr (case lookup h hm bs k of None \<Rightarrow> None | Some v \<Rightarrow> v))"
  by (simp add: Get_def getPairsUnsafe_compat[OF assms] lookup_def map_of_entries split: option.split)

lemma bucket_invI:
  "chain h (slices hm ! i) as \<Longrightarrow>
   (\<And>a. a \<in> set as \<Longrightarrow> a < fresh h) \<Longrightarrow>
   (\<And>a. a \<in> set as \<Longrightarrow> supported (key (cells h a))) \<Longrightarrow>
   (\<And>a. a \<in> set as \<Longrightarrow> bucket_of hm (key (cells h a)) = i) \<Longrightarrow>
   distinct (map (\<lambda>a. key (cells h a)) as) \<Longrightarrow>
   (\<And>a b. a \<in> set as \<Longrightarrow> b \<in> set as \<Longrightarrow> dom_of (key (cells h a)) = dom_of (key (cells h b))) \<Longrightarrow>
   (as \<noteq> [] \<Longrightarrow> last' (cells h (hd as)) = Some (last as)) \<Longrightarrow>
   bucket_inv h hm i as"
  unfolding bucket_inv_def by blast

lemma bucket_inv_chain: "bucket_inv h hm i as \<Longrightarrow> chain h (slices hm ! i) as"
  unfolding bucket_inv_def by blast

lemma bucket_inv_top: "bucket_inv h hm i as \<Longrightarrow> a \<in> set as \<Longrightarrow> a < fresh h"
  unfolding bucket_inv_def by blast

lemma bucket_inv_supported: "bucket_inv h hm i as \<Longrightarrow> a \<in> set as \<Longrightarrow> supported (key (cells h a))"
  unfolding bucket_inv_def by blast

lemma bucket_inv_index: "bucket_inv h hm i as \<Longrightarrow> a \<in> set as \<Longrightarrow> bucket_of hm (key (cells h a)) = i"
  unfolding bucket_inv_def by blast

lemma bucket_inv_distinct_keys: "bucket_inv h hm i as \<Longrightarrow> distinct (map (\<lambda>a. key (cells h a)) as)"
  unfolding bucket_inv_def by blast

lemma bucket_inv_distinct: "bucket_inv h hm i as \<Longrightarrow> distinct as"
  by (drule bucket_inv_distinct_keys) (simp add: distinct_map)

lemma bucket_inv_last: "bucket_inv h hm i as \<Longrightarrow> as \<noteq> [] \<Longrightarrow> last' (cells h (hd as)) = Some (last as)"
  unfolding bucket_inv_def by blast

lemma table_inv_shape: "table_inv h hm bs \<Longrightarrow> hm_shape hm"
  unfolding table_inv_def by blast

lemma table_inv_length: "table_inv h hm bs \<Longrightarrow> length bs = length (slices hm)"
  unfolding table_inv_def by blast

lemma table_inv_nth: "table_inv h hm bs \<Longrightarrow> i < length bs \<Longrightarrow> bucket_inv h hm i (bs ! i)"
  unfolding table_inv_def by blast

lemma table_inv_count: "table_inv h hm bs \<Longrightarrow> count hm = of_nat (length (concat bs))"
  unfolding table_inv_def by blast

lemma table_invI:
  "hm_shape hm \<Longrightarrow> length bs = length (slices hm) \<Longrightarrow>
   (\<And>i. i < length bs \<Longrightarrow> bucket_inv h hm i (bs ! i)) \<Longrightarrow>
   count hm = of_nat (length (concat bs)) \<Longrightarrow> table_inv h hm bs"
  unfolding table_inv_def by blast

lemma hashIndex_masks:
  "mask_uint32 hm' = mask_uint32 hm \<Longrightarrow> mask_uint64 hm' = mask_uint64 hm \<Longrightarrow>
   mask_int hm' = mask_int hm \<Longrightarrow> hashIndex hm' k = hashIndex hm k"
  by (cases k) (simp_all add: hashIndex_def)

lemma bucket_of_masks:
  "mask_uint32 hm' = mask_uint32 hm \<Longrightarrow> mask_uint64 hm' = mask_uint64 hm \<Longrightarrow>
   mask_int hm' = mask_int hm \<Longrightarrow> bucket_of hm' k = bucket_of hm k"
  using hashIndex_masks[of hm' hm k] by (simp add: bucket_of_def)

lemma hm_shape_masks:
  "hm_shape hm \<Longrightarrow> mask_uint32 hm' = mask_uint32 hm \<Longrightarrow> mask_uint64 hm' = mask_uint64 hm \<Longrightarrow>
   mask_int hm' = mask_int hm \<Longrightarrow> capacity hm' = capacity hm \<Longrightarrow>
   length (slices hm') = length (slices hm) \<Longrightarrow> hm_shape hm'"
  unfolding hm_shape_def by simp

lemma same_shape_refl [simp]: "same_shape hm hm"
  by (simp add: same_shape_def)

lemma same_shape_upd [simp]:
  "same_shape hm (hm\<lparr>count := c\<rparr>)"
  "same_shape hm (hm\<lparr>slices := (slices hm)[i := p], count := c\<rparr>)"
  "same_shape hm (hm\<lparr>slices := (slices hm)[i := p]\<rparr>)"
  by (simp_all add: same_shape_def)

lemma same_shape_bucket_of: "same_shape hm hm' \<Longrightarrow> bucket_of hm' k = bucket_of hm k"
  using bucket_of_masks[of hm' hm k] by (simp add: same_shape_def)

lemma same_shape_hm_shape: "same_shape hm hm' \<Longrightarrow> hm_shape hm \<Longrightarrow> hm_shape hm'"
  using hm_shape_masks[of hm hm'] by (simp add: same_shape_def)

lemma bucket_inv_frame:
  assumes b: "bucket_inv h hm i as"
    and c0: "\<And>a. a \<in> set as \<Longrightarrow> key (cells h' a) = key (cells h a)
               \<and> next' (cells h' a) = next' (cells h a) \<and> last' (cells h' a) = last' (cells h a)"
    and t: "fresh h \<le> fresh h'"
    and s: "slices hm' ! i = slices hm ! i"
    and m: "same_shape hm hm'"
  shows "bucket_inv h' hm' i as"
proof -
  have c: "\<And>a. a \<in> set as \<Longrightarrow> key (cells h' a) = key (cells h a)" using c0 by simp
  show ?thesis
  proof (rule bucket_invI)
  have "\<forall>a\<in>set as. next' (cells h' a) = next' (cells h a)" using c0 by simp
  then have "chain h' (slices hm ! i) as = chain h (slices hm ! i) as" by (rule chain_frame)
  moreover have "chain h (slices hm ! i) as" using b by (rule bucket_inv_chain)
  ultimately show "chain h' (slices hm' ! i) as" using s by simp
next
  fix a assume "a \<in> set as"
  with b have "a < fresh h" by (rule bucket_inv_top)
  with t show "a < fresh h'" by simp
next
  fix a assume a: "a \<in> set as"
  with b have "supported (key (cells h a))" by (rule bucket_inv_supported)
  with c[OF a] show "supported (key (cells h' a))" by simp
next
  fix a assume a: "a \<in> set as"
  with b have "bucket_of hm (key (cells h a)) = i" by (rule bucket_inv_index)
  with c[OF a] same_shape_bucket_of[OF m] show "bucket_of hm' (key (cells h' a)) = i" by simp
next
  have e: "map (\<lambda>a. key (cells h' a)) as = map (\<lambda>a. key (cells h a)) as"
    by (rule map_cong) (simp_all add: c)
  from b have "distinct (map (\<lambda>a. key (cells h a)) as)" by (rule bucket_inv_distinct_keys)
  then show "distinct (map (\<lambda>a. key (cells h' a)) as)" by (simp only: e)
next
  fix a b' assume a: "a \<in> set as" and b': "b' \<in> set as"
  from b a b' have "dom_of (key (cells h a)) = dom_of (key (cells h b'))" by (rule bucket_inv_same_dom)
  with c[OF a] c[OF b'] show "dom_of (key (cells h' a)) = dom_of (key (cells h' b'))" by simp
next
  assume n: "as \<noteq> []"
  then have "hd as \<in> set as" by simp
  then have "last' (cells h' (hd as)) = last' (cells h (hd as))" using c0 by simp
  moreover from b n have "last' (cells h (hd as)) = Some (last as)" by (rule bucket_inv_last)
  ultimately show "last' (cells h' (hd as)) = Some (last as)" by simp
  qed
qed

lemma length_concat_update:
  "i < length bs \<Longrightarrow> length (concat (bs[i := xs])) + length (bs ! i) = length (concat bs) + length xs"
proof (induction bs arbitrary: i)
  case Nil
  then show ?case by simp
next
  case (Cons b bs)
  then show ?case by (cases i) auto
qed

lemma table_inv_other_bucket:
  assumes "table_inv h hm bs" "i < length bs" "j < length bs" "j \<noteq> i" "a \<in> set (bs ! j)"
  shows "a \<notin> set (bs ! i) \<and> a < fresh h"
proof -
  have bj: "bucket_inv h hm j (bs ! j)" using assms(1,3) by (rule table_inv_nth)
  have bi: "bucket_inv h hm i (bs ! i)" using assms(1,2) by (rule table_inv_nth)
  have "bucket_of hm (key (cells h a)) = j" using bj assms(5) by (rule bucket_inv_index)
  moreover have "a \<in> set (bs ! i) \<Longrightarrow> bucket_of hm (key (cells h a)) = i" using bi by (rule bucket_inv_index)
  moreover have "a < fresh h" using bj assms(5) by (rule bucket_inv_top)
  ultimately show ?thesis using assms(4) by blast
qed

lemma table_inv_step:
  assumes t: "table_inv h hm bs"
    and i: "i < length bs"
    and m: "same_shape hm hm'"
    and s: "slices hm' = (slices hm)[i := p]"
    and b: "bucket_inv h' hm' i bs'"
    and f: "\<And>a. a < fresh h \<Longrightarrow> a \<notin> set (bs ! i) \<Longrightarrow> cells h' a = cells h a"
    and tp: "fresh h \<le> fresh h'"
    and c: "count hm' = of_nat (length (concat (bs[i := bs'])))"
  shows "table_inv h' hm' (bs[i := bs'])"
proof (rule table_invI)
  from t have "hm_shape hm" by (rule table_inv_shape)
  with m show "hm_shape hm'" by (rule same_shape_hm_shape)
next
  from t have "length bs = length (slices hm)" by (rule table_inv_length)
  with s show "length (bs[i := bs']) = length (slices hm')" by simp
next
  fix j assume "j < length (bs[i := bs'])"
  then have j: "j < length bs" by simp
  show "bucket_inv h' hm' j (bs[i := bs'] ! j)"
  proof (cases "j = i")
    case True
    with b i show ?thesis by simp
  next
    case False
    have bj: "bucket_inv h hm j (bs ! j)" using t j by (rule table_inv_nth)
    have "bucket_inv h' hm' j (bs ! j)"
    proof (rule bucket_inv_frame[OF bj _ tp _ m])
      fix a assume "a \<in> set (bs ! j)"
      with table_inv_other_bucket[OF t i j False] have "a \<notin> set (bs ! i) \<and> a < fresh h" by simp
      then have "cells h' a = cells h a" using f by simp
      then show "key (cells h' a) = key (cells h a)
               \<and> next' (cells h' a) = next' (cells h a) \<and> last' (cells h' a) = last' (cells h a)" by simp
    next
      show "slices hm' ! j = slices hm ! j" using s False by simp
    qed
    with False show ?thesis by simp
  qed
next
  show "count hm' = of_nat (length (concat (bs[i := bs'])))" by (rule c)
qed

lemma cells_upd [simp]: "cells (upd h a f) b = (if b = a then f (cells h a) else cells h b)"
  by (simp add: upd_def)

lemma top_upd [simp]: "fresh (upd h a f) = fresh h"
  by (simp add: upd_def)

lemma chain_snoc:
  assumes "chain h p as" "as \<noteq> []" "distinct as"
    and "next' (cells h' (last as)) = Some a" "next' (cells h' a) = None"
    and "\<And>x. x \<in> set as \<Longrightarrow> x \<noteq> last as \<Longrightarrow> next' (cells h' x) = next' (cells h x)"
  shows "chain h' p (as @ [a])"
  using assms
proof (induction as arbitrary: p)
  case Nil
  then show ?case by simp
next
  case (Cons x xs)
  show ?case
  proof (cases xs)
    case Nil
    with Cons.prems show ?thesis by simp
  next
    case (Cons y ys)
    with Cons.prems(3) have ne: "x \<noteq> last (x # xs)" by auto
    from Cons.prems(1) have p: "p = Some x" and c: "chain h (next' (cells h x)) xs" by simp_all
    have nx: "next' (cells h' x) = next' (cells h x)" using ne by (intro Cons.prems(6)) simp_all
    have l: "last (x # xs) = last xs" using Cons by simp
    have "chain h' (next' (cells h x)) (xs @ [a])"
    proof (rule Cons.IH[OF c])
      show "xs \<noteq> []" using Cons by simp
      show "distinct xs" using Cons.prems(3) by simp
      show "next' (cells h' (last xs)) = Some a" using Cons.prems(4) l by simp
      show "next' (cells h' a) = None" by (rule Cons.prems(5))
      fix z assume "z \<in> set xs" "z \<noteq> last xs"
      then show "next' (cells h' z) = next' (cells h z)" using l by (intro Cons.prems(6)) simp_all
    qed
    with p nx show ?thesis by simp
  qed
qed

lemma chain_Nil_iff: "chain h p [] \<longleftrightarrow> p = None"
  by simp

lemma chain_Some: "chain h (Some f) as \<Longrightarrow> \<exists>ys. as = f # ys"
  by (cases as) auto

lemma chain_None: "chain h None as \<Longrightarrow> as = []"
  by (cases as) auto

lemma update_absent: "k \<notin> fst ` set al \<Longrightarrow> AList.update k v al = al @ [(k, v)]"
  by (induction al) auto

lemma find_key_None_keys: "find_key h k as = None \<Longrightarrow> k \<notin> fst ` set (map (entry h) as)"
  by (induction as) (auto simp: entry_def split: if_splits)

lemma abs_table_update:
  assumes "i < length bs"
    and "\<And>j a. j < length bs \<Longrightarrow> j \<noteq> i \<Longrightarrow> a \<in> set (bs ! j) \<Longrightarrow> entry h' a = entry h a"
    and "map (entry h') as' = es"
  shows "abs_table h' (bs[i := as']) = (abs_table h bs)[i := es]"
proof (rule nth_equalityI)
  show "length (abs_table h' (bs[i := as'])) = length ((abs_table h bs)[i := es])"
    by (simp add: abs_table_def)
next
  fix j assume "j < length (abs_table h' (bs[i := as']))"
  then have j: "j < length bs" by (simp add: abs_table_def)
  show "abs_table h' (bs[i := as']) ! j = (abs_table h bs)[i := es] ! j"
  proof (cases "j = i")
    case True
    with j assms(3) show ?thesis by (simp add: abs_table_def)
  next
    case False
    have "map (entry h') (bs ! j) = map (entry h) (bs ! j)"
      by (rule map_cong) (simp_all add: assms(2)[OF j False])
    with j False show ?thesis by (simp add: abs_table_def)
  qed
qed

lemma Put_absent:
  assumes t: "table_inv h hm bs" and s: "supported k"
    and i: "i = bucket_of hm k"
    and c: "compat h (bs ! i) k" and f: "find_key h k (bs ! i) = None"
  shows "\<exists>h' hm'. Put h hm k v = Some (Inr (h', hm'))
     \<and> table_inv h' hm' (bs[i := bs ! i @ [fresh h]])
     \<and> abs_table h' (bs[i := bs ! i @ [fresh h]]) = (abs_table h bs)[i := AList.update k v (abs_table h bs ! i)]
     \<and> fresh h' = Suc (fresh h)
     \<and> (\<forall>a<fresh h. a \<notin> set (bs ! i) \<longrightarrow> cells h' a = cells h a)
     \<and> same_shape hm hm' \<and> count hm' = count hm + 1"
proof -
  let ?a = "fresh h"
  let ?as = "bs ! i"
  from table_inv_bucket[OF t, of k] i have il: "i < length bs" and bi: "bucket_inv h hm i ?as" by simp_all
  have ch: "chain h (slices hm ! i) ?as" using bi by (rule bucket_inv_chain)
  have lt: "\<And>x. x \<in> set ?as \<Longrightarrow> x < ?a" using bi by (rule bucket_inv_top)
  have nin: "?a \<notin> set ?as" using lt by blast
  have sl: "slice_get (slices hm) (hashIndex hm k) = Inr (slices hm ! i)"
    using table_inv_slice[OF t] i by simp
  have ni: "nat (hashIndex hm k) = i" using i by (simp add: bucket_of_def)
  have g: "getPairs h hm k = Some (Inr (None, hashIndex hm k))"
    using getPairsUnsafe_compat[OF t s] c f i by (simp add: getPairs_def)
  have put: "Put h hm k v = Some (Put_locked h hm k v (None, hashIndex hm k))"
    by (simp add: Put_def g)
  have cnt: "count hm + 1 = of_nat (length (concat (bs[i := ?as @ [?a]])))"
  proof -
    have "length (concat (bs[i := ?as @ [?a]])) + length ?as = length (concat bs) + length (?as @ [?a])"
      using il by (rule length_concat_update)
    then have "length (concat (bs[i := ?as @ [?a]])) = Suc (length (concat bs))" by simp
    then show ?thesis using table_inv_count[OF t] by simp
  qed
  have keys: "k \<notin> fst ` set (map (entry h) ?as)" using f by (rule find_key_None_keys)
  have upd: "AList.update k v (abs_table h bs ! i) = map (entry h) ?as @ [(k, v)]"
    using keys il by (simp add: abs_table_def update_absent)
  show ?thesis
  proof (cases ?as)
    case Nil
    with ch have p: "slices hm ! i = None" by simp
    define h' where "h' = upd (snd (alloc h \<lparr>key = k, value' = v, last' = None, next' = None\<rparr>)) ?a
         (\<lambda>c. c\<lparr>last' := Some ?a\<rparr>)"
    define hm' where "hm' = hm\<lparr>slices := (slices hm)[i := Some ?a], count := count hm + 1\<rparr>"
    have pl: "Put_locked h hm k v (None, hashIndex hm k) = Inr (h', hm')"
      by (simp add: Put_locked_def sl p alloc_def h'_def hm'_def ni)
    have ce: "\<And>b. b \<noteq> ?a \<Longrightarrow> cells h' b = cells h b" by (simp add: h'_def alloc_def)
    have ca: "cells h' ?a = \<lparr>key = k, value' = v, last' = Some ?a, next' = None\<rparr>"
      by (simp add: h'_def alloc_def)
    have tp: "fresh h' = Suc ?a" by (simp add: h'_def alloc_def)
    have ss: "same_shape hm hm'" by (simp add: hm'_def)
    have b': "bucket_inv h' hm' i [?a]"
    proof (rule bucket_invI)
      show "chain h' (slices hm' ! i) [?a]"
        using il table_inv_length[OF t] by (simp add: hm'_def ca)
    qed (simp_all add: ca tp s same_shape_bucket_of[OF ss] i)
    have ti: "table_inv h' hm' (bs[i := [?a]])"
    proof (rule table_inv_step[OF t il ss _ b'])
      show "slices hm' = (slices hm)[i := Some ?a]" by (simp add: hm'_def)
      show "\<And>a. a < ?a \<Longrightarrow> a \<notin> set ?as \<Longrightarrow> cells h' a = cells h a" using ce by simp
      show "fresh h \<le> fresh h'" using tp by simp
      show "count hm' = of_nat (length (concat (bs[i := [?a]])))" using cnt Nil by (simp add: hm'_def)
    qed
    have ab: "abs_table h' (bs[i := [?a]]) = (abs_table h bs)[i := [(k, v)]]"
    proof (rule abs_table_update[OF il])
      fix j a assume j: "j < length bs" "j \<noteq> i" "a \<in> set (bs ! j)"
      with table_inv_other_bucket[OF t il j(1,2) j(3)] have "a \<noteq> ?a" by simp
      then show "entry h' a = entry h a" using ce by (simp add: entry_def)
    next
      show "map (entry h') [?a] = [(k, v)]" by (simp add: entry_def ca)
    qed
    show ?thesis
      using put pl ti ab tp ce ss upd Nil by (simp add: hm'_def)
  next
    case (Cons f0 rest)
    with ch have p: "slices hm ! i = Some f0" by simp
    have ne: "?as \<noteq> []" using Cons by simp
    define l where "l = last ?as"
    have lin: "l \<in> set ?as" using ne by (simp add: l_def)
    have fin: "f0 \<in> set ?as" using Cons by simp
    have la: "last' (cells h f0) = Some l"
      using bucket_inv_last[OF bi ne] Cons by (simp add: l_def)
    have fa: "f0 \<noteq> ?a" using lt[OF fin] by simp
    have lna: "l \<noteq> ?a" using lt[OF lin] by simp
    define h1 where "h1 = snd (alloc h \<lparr>key = k, value' = v, last' = None, next' = None\<rparr>)"
    define h' where "h' = upd (upd h1 l (\<lambda>c. c\<lparr>next' := Some ?a\<rparr>)) f0 (\<lambda>c. c\<lparr>last' := Some ?a\<rparr>)"
    define hm' where "hm' = hm\<lparr>count := count hm + 1\<rparr>"
    have h1c: "\<And>b. cells h1 b = (if b = ?a then \<lparr>key = k, value' = v, last' = None, next' = None\<rparr> else cells h b)"
      by (simp add: h1_def alloc_def)
    have pl: "Put_locked h hm k v (None, hashIndex hm k) = Inr (h', hm')"
      using fa la by (simp add: Put_locked_def sl p alloc_def h'_def hm'_def h1_def Let_def)
    have ce: "\<And>b. b \<noteq> ?a \<Longrightarrow> b \<noteq> l \<Longrightarrow> b \<noteq> f0 \<Longrightarrow> cells h' b = cells h b"
      by (simp add: h'_def h1c)
    have ke: "\<And>b. b \<noteq> ?a \<Longrightarrow> key (cells h' b) = key (cells h b) \<and> value' (cells h' b) = value' (cells h b)"
      by (simp add: h'_def h1c)
    have nx: "\<And>b. b \<noteq> ?a \<Longrightarrow> b \<noteq> l \<Longrightarrow> next' (cells h' b) = next' (cells h b)"
      by (simp add: h'_def h1c)
    have nl: "next' (cells h' l) = Some ?a" by (simp add: h'_def h1c)
    have ca: "key (cells h' ?a) = k \<and> value' (cells h' ?a) = v \<and> next' (cells h' ?a) = None"
      using fa lna by (simp add: h'_def h1c)
    have lf: "last' (cells h' f0) = Some ?a" by (simp add: h'_def h1c)
    have tp: "fresh h' = Suc ?a" by (simp add: h'_def h1_def alloc_def)
    have ss: "same_shape hm hm'" by (simp add: hm'_def)
    have kas: "map (\<lambda>a. key (cells h' a)) ?as = map (\<lambda>a. key (cells h a)) ?as"
      by (rule map_cong) (use lt ke in fastforce)+
    have old: "\<And>a. a \<in> set ?as \<Longrightarrow> a \<noteq> ?a \<and> key (cells h' a) = key (cells h a)"
    proof -
      fix a assume "a \<in> set ?as"
      then have "a < ?a" by (rule lt)
      then have "a \<noteq> ?a" by simp
      then show "a \<noteq> ?a \<and> key (cells h' a) = key (cells h a)" using ke by simp
    qed
    have cm: "\<And>a. a \<in> set ?as \<Longrightarrow> dom_of (key (cells h a)) = dom_of k"
      using c by (simp add: compat_def)
    have b': "bucket_inv h' hm' i (?as @ [?a])"
    proof (rule bucket_invI)
      have "chain h' (slices hm ! i) (?as @ [?a])"
      proof (rule chain_snoc[OF ch ne bucket_inv_distinct[OF bi]])
        show "next' (cells h' (last ?as)) = Some ?a" using nl by (simp add: l_def)
        show "next' (cells h' ?a) = None" using ca by simp
        fix x assume "x \<in> set ?as" "x \<noteq> last ?as"
        moreover from this have "x \<noteq> fresh h" using lt by blast
        ultimately show "next' (cells h' x) = next' (cells h x)" using nx by (simp add: l_def)
      qed
      then show "chain h' (slices hm' ! i) (?as @ [?a])" by (simp add: hm'_def)
    next
      fix a assume "a \<in> set (?as @ [?a])"
      then consider "a \<in> set ?as" | "a = ?a" by auto
      then show "a < fresh h'"
      proof cases
        case 1
        then have "a < ?a" by (rule lt)
        then show ?thesis using tp by simp
      next
        case 2
        then show ?thesis using tp by simp
      qed
    next
      fix a assume "a \<in> set (?as @ [?a])"
      then consider "a \<in> set ?as" | "a = ?a" by auto
      then show "supported (key (cells h' a))"
      proof cases
        case 1
        then show ?thesis using bucket_inv_supported[OF bi 1] old[OF 1] by simp
      next
        case 2
        then show ?thesis using ca s by simp
      qed
    next
      fix a assume "a \<in> set (?as @ [?a])"
      then consider "a \<in> set ?as" | "a = ?a" by auto
      then show "bucket_of hm' (key (cells h' a)) = i"
      proof cases
        case 1
        then show ?thesis using bucket_inv_index[OF bi 1] old[OF 1] same_shape_bucket_of[OF ss] by simp
      next
        case 2
        then show ?thesis using ca i same_shape_bucket_of[OF ss] by simp
      qed
    next
      have "k \<notin> set (map (\<lambda>a. key (cells h a)) ?as)"
        using keys by (simp add: entry_def image_iff)
      then show "distinct (map (\<lambda>a. key (cells h' a)) (?as @ [?a]))"
        using bucket_inv_distinct_keys[OF bi] ca by (simp add: kas)
    next
      fix a b assume "a \<in> set (?as @ [?a])" "b \<in> set (?as @ [?a])"
      moreover have "\<And>x. x \<in> set (?as @ [?a]) \<Longrightarrow> dom_of (key (cells h' x)) = dom_of k"
      proof -
        fix x assume "x \<in> set (?as @ [?a])"
        then consider "x \<in> set ?as" | "x = ?a" by auto
        then show "dom_of (key (cells h' x)) = dom_of k"
        proof cases
          case 1
          then show ?thesis using cm[OF 1] old[OF 1] by simp
        next
          case 2
          then show ?thesis using ca by simp
        qed
      qed
      ultimately show "dom_of (key (cells h' a)) = dom_of (key (cells h' b))" by simp
    next
      show "last' (cells h' (hd (?as @ [?a]))) = Some (last (?as @ [?a]))"
        using Cons lf by simp
    qed
    have ti: "table_inv h' hm' (bs[i := ?as @ [?a]])"
    proof (rule table_inv_step[OF t il ss _ b'])
      show "slices hm' = (slices hm)[i := slices hm ! i]" by (simp add: hm'_def)
      fix a assume "a < ?a" "a \<notin> set ?as"
      then have "a \<noteq> ?a" "a \<noteq> l" "a \<noteq> f0" using lin fin by auto
      then show "cells h' a = cells h a" by (rule ce)
    next
      show "fresh h \<le> fresh h'" using tp by simp
      show "count hm' = of_nat (length (concat (bs[i := ?as @ [?a]])))" using cnt by (simp add: hm'_def)
    qed
    have ab: "abs_table h' (bs[i := ?as @ [?a]]) = (abs_table h bs)[i := map (entry h) ?as @ [(k, v)]]"
    proof (rule abs_table_update[OF il])
      fix j a assume j: "j < length bs" "j \<noteq> i" "a \<in> set (bs ! j)"
      with table_inv_other_bucket[OF t il j(1,2) j(3)] have "a \<noteq> ?a" by simp
      then show "entry h' a = entry h a" using ke by (simp add: entry_def)
    next
      have "map (entry h') ?as = map (entry h) ?as"
      proof (rule map_cong)
        fix x assume "x \<in> set ?as"
        then have "x \<noteq> ?a" using old by simp
        then show "entry h' x = entry h x" using ke by (simp add: entry_def)
      qed simp
      then show "map (entry h') (?as @ [?a]) = map (entry h) ?as @ [(k, v)]"
        using ca by (simp add: entry_def)
    qed
    have fr: "\<forall>a<?a. a \<notin> set ?as \<longrightarrow> cells h' a = cells h a"
    proof (intro allI impI)
      fix a assume "a < ?a" "a \<notin> set ?as"
      then have "a \<noteq> ?a" "a \<noteq> l" "a \<noteq> f0" using lin fin by auto
      then show "cells h' a = cells h a" by (rule ce)
    qed
    show ?thesis
      using put pl ti ab tp fr ss upd by (simp add: hm'_def)
  qed
qed

lemma entries_update_value:
  "distinct as \<Longrightarrow> find_key h k as = Some p \<Longrightarrow>
   map (entry (upd h p (\<lambda>c. c\<lparr>value' := v\<rparr>))) as = AList.update k v (map (entry h) as)"
proof (induction as)
  case Nil
  then show ?case by simp
next
  case (Cons x xs)
  show ?case
  proof (cases "key (cells h x) = k")
    case True
    with Cons.prems have px: "p = x" by simp
    with Cons.prems(1) have "\<And>y. y \<in> set xs \<Longrightarrow> y \<noteq> p" by auto
    then have "map (entry (upd h p (\<lambda>c. c\<lparr>value' := v\<rparr>))) xs = map (entry h) xs"
      by (intro map_cong) (simp_all add: entry_def)
    with True px show ?thesis by (simp add: entry_def)
  next
    case False
    with Cons.prems have f: "find_key h k xs = Some p" by simp
    then have "p \<in> set xs" using find_key_in by blast
    with Cons.prems(1) have "x \<noteq> p" by auto
    with False Cons.IH f Cons.prems(1) show ?thesis by (simp add: entry_def)
  qed
qed

lemma Put_present:
  assumes t: "table_inv h hm bs" and s: "supported k"
    and i: "i = bucket_of hm k"
    and c: "compat h (bs ! i) k" and f: "find_key h k (bs ! i) = Some p"
  shows "Put h hm k v = Some (Inr (upd h p (\<lambda>c. c\<lparr>value' := v\<rparr>), hm))
     \<and> table_inv (upd h p (\<lambda>c. c\<lparr>value' := v\<rparr>)) hm bs
     \<and> abs_table (upd h p (\<lambda>c. c\<lparr>value' := v\<rparr>)) bs = (abs_table h bs)[i := AList.update k v (abs_table h bs ! i)]
     \<and> p \<in> set (bs ! i)"
proof -
  let ?h = "upd h p (\<lambda>c. c\<lparr>value' := v\<rparr>)"
  from table_inv_bucket[OF t, of k] i have il: "i < length bs" and bi: "bucket_inv h hm i (bs ! i)" by simp_all
  have g: "getPairs h hm k = Some (Inr (Some p, hashIndex hm k))"
    using getPairsUnsafe_compat[OF t s] c f i by (simp add: getPairs_def)
  have put: "Put h hm k v = Some (Inr (?h, hm))"
    by (simp add: Put_def g Put_locked_def)
  have pin: "p \<in> set (bs ! i)" using f find_key_in by blast
  have ti: "table_inv ?h hm bs"
  proof (rule table_invI)
    show "hm_shape hm" using t by (rule table_inv_shape)
    show "length bs = length (slices hm)" using t by (rule table_inv_length)
    show "count hm = of_nat (length (concat bs))" using t by (rule table_inv_count)
    fix j assume "j < length bs"
    with t have "bucket_inv h hm j (bs ! j)" by (rule table_inv_nth)
    then show "bucket_inv ?h hm j (bs ! j)"
      by (rule bucket_inv_frame) simp_all
  qed
  have ab: "abs_table ?h (bs[i := bs ! i]) = (abs_table h bs)[i := AList.update k v (abs_table h bs ! i)]"
  proof (rule abs_table_update[OF il])
    fix j a assume j: "j < length bs" "j \<noteq> i" "a \<in> set (bs ! j)"
    with table_inv_other_bucket[OF t il j(1,2) j(3)] pin have "a \<noteq> p" by blast
    then show "entry ?h a = entry h a" by (simp add: entry_def)
  next
    show "map (entry ?h) (bs ! i) = AList.update k v (abs_table h bs ! i)"
      using entries_update_value[OF bucket_inv_distinct[OF bi] f] il by (simp add: abs_table_def)
  qed
  show ?thesis using put ti ab pin by simp
qed

lemma Put_unsupported: "\<not> supported k \<Longrightarrow> Put h hm k v = Some (Inl BadKeyType)"
  by (simp add: Put_def getPairs_def getPairsUnsafe_unsupported)

lemma Put_not_compat:
  "table_inv h hm bs \<Longrightarrow> supported k \<Longrightarrow> \<not> compat h (bs ! bucket_of hm k) k \<Longrightarrow>
   Put h hm k v = Some (Inl TypeAssertion)"
  by (simp add: Put_def getPairs_def getPairsUnsafe_not_compat)

lemma set_concat_update: "set (concat (bs[i := xs])) \<subseteq> set (concat bs) \<union> set xs"
  using set_update_subset_insert[of bs i xs] by auto

text \<open>summary of a successful Put\<close>

lemma Put_spec:
  assumes t: "table_inv h hm bs" and s: "supported k" and c: "compat h (bs ! bucket_of hm k) k"
  shows "\<exists>h' hm' bs'. Put h hm k v = Some (Inr (h', hm')) \<and> table_inv h' hm' bs'
     \<and> abs_table h' bs' = (abs_table h bs)[bucket_of hm k := AList.update k v (abs_table h bs ! bucket_of hm k)]
     \<and> fresh h \<le> fresh h'
     \<and> (\<forall>a<fresh h. a \<notin> set (concat bs) \<longrightarrow> cells h' a = cells h a)
     \<and> set (concat bs') \<subseteq> set (concat bs) \<union> {a. fresh h \<le> a}
     \<and> same_shape hm hm'"
proof -
  let ?i = "bucket_of hm k"
  from table_inv_bucket[OF t, of k] have il: "?i < length bs" by simp
  then have "bs ! ?i \<in> set bs" by (rule nth_mem)
  then have sub: "set (bs ! ?i) \<subseteq> set (concat bs)" by auto
  show ?thesis
  proof (cases "find_key h k (bs ! ?i)")
    case None
    from Put_absent[OF t s refl c None, of v] obtain h' hm' where
      p: "Put h hm k v = Some (Inr (h', hm'))"
      and ti: "table_inv h' hm' (bs[?i := bs ! ?i @ [fresh h]])"
      and ab: "abs_table h' (bs[?i := bs ! ?i @ [fresh h]]) = (abs_table h bs)[?i := AList.update k v (abs_table h bs ! ?i)]"
      and tp: "fresh h' = Suc (fresh h)"
      and fr: "\<forall>a<fresh h. a \<notin> set (bs ! ?i) \<longrightarrow> cells h' a = cells h a"
      and ss: "same_shape hm hm'" by blast
    have "set (concat (bs[?i := bs ! ?i @ [fresh h]])) \<subseteq> set (concat bs) \<union> set (bs ! ?i @ [fresh h])"
      by (rule set_concat_update)
    then have "set (concat (bs[?i := bs ! ?i @ [fresh h]])) \<subseteq> set (concat bs) \<union> {a. fresh h \<le> a}"
      using sub by auto
    moreover have "\<forall>a<fresh h. a \<notin> set (concat bs) \<longrightarrow> cells h' a = cells h a"
      using fr sub by blast
    ultimately show ?thesis using p ti ab tp ss by (intro exI[of _ h'] exI[of _ hm'] exI[of _ "bs[?i := bs ! ?i @ [fresh h]]"]) simp
  next
    case (Some p)
    from Put_present[OF t s refl c Some, of v] sub
    show ?thesis
      by (intro exI[of _ "upd h p (\<lambda>c. c\<lparr>value' := v\<rparr>)"] exI[of _ hm] exI[of _ bs]) auto
  qed
qed

lemma remove_loop_absent:
  "chain h p ys \<Longrightarrow> supported k \<Longrightarrow> compat h ys k \<Longrightarrow> find_key h k ys = None \<Longrightarrow>
   removePairs_loop (equalFunc k) h hm k uf idx first prev p = Some (Inr (h, hm, []))"
proof (induction ys arbitrary: p prev)
  case Nil
  then show ?case by (subst removePairs_loop.simps) simp
next
  case (Cons x xs)
  from Cons.prems have p: "p = Some x" and c: "chain h (next' (cells h x)) xs"
    and d: "dom_of (key (cells h x)) = dom_of k" and cm: "compat h xs k"
    and ne: "key (cells h x) \<noteq> k" and f: "find_key h k xs = None"
    by (simp_all split: if_splits)
  have eq: "equalFunc k (key (cells h x)) k = Inr (key (cells h x) = k)"
    using Cons.prems(2) d by (rule equalFunc_same)
  have ih: "removePairs_loop (equalFunc k) h hm k uf idx first (Some x) (next' (cells h x)) = Some (Inr (h, hm, []))"
    using c Cons.prems(2) cm f by (rule Cons.IH)
  show ?case
    by (subst removePairs_loop.simps) (simp add: p eq ne ih)
qed

lemma remove_loop_found:
  "chain h p (ys1 @ a # ys2) \<Longrightarrow> supported k \<Longrightarrow> compat h ys1 k \<Longrightarrow> find_key h k ys1 = None \<Longrightarrow>
   key (cells h a) = k \<Longrightarrow>
   removePairs_loop (equalFunc k) h hm k uf idx first prev p
     = Some (removePairs_found h hm uf idx first (if ys1 = [] then prev else Some (last ys1)) a)"
proof (induction ys1 arbitrary: p prev)
  case Nil
  then have p: "p = Some a" by simp
  have "dom_of (key (cells h a)) = dom_of k" using Nil.prems(5) by simp
  with Nil.prems(2) have "equalFunc k (key (cells h a)) k = Inr (key (cells h a) = k)"
    by (rule equalFunc_same)
  then show ?case using Nil.prems(5) by (subst removePairs_loop.simps) (simp add: p)
next
  case (Cons x xs)
  from Cons.prems have p: "p = Some x" and c: "chain h (next' (cells h x)) (xs @ a # ys2)"
    and d: "dom_of (key (cells h x)) = dom_of k" and cm: "compat h xs k"
    and ne: "key (cells h x) \<noteq> k" and f: "find_key h k xs = None"
    by (simp_all split: if_splits)
  have eq: "equalFunc k (key (cells h x)) k = Inr (key (cells h x) = k)"
    using Cons.prems(2) d by (rule equalFunc_same)
  have ih: "removePairs_loop (equalFunc k) h hm k uf idx first (Some x) (next' (cells h x))
      = Some (removePairs_found h hm uf idx first (if xs = [] then Some x else Some (last xs)) a)"
    using c Cons.prems(2) cm f Cons.prems(5) by (rule Cons.IH)
  show ?case
    by (subst removePairs_loop.simps) (simp add: p eq ne ih)
qed

lemma remove_loop_panic:
  "chain h p (xs @ a # ys) \<Longrightarrow> supported k \<Longrightarrow> compat h xs k \<Longrightarrow> find_key h k xs = None \<Longrightarrow>
   dom_of (key (cells h a)) \<noteq> dom_of k \<Longrightarrow>
   removePairs_loop (equalFunc k) h hm k uf idx first prev p = Some (Inl TypeAssertion)"
proof (induction xs arbitrary: p prev)
  case Nil
  then have p: "p = Some a" by simp
  have "equalFunc k (key (cells h a)) k = Inl TypeAssertion"
    using Nil.prems(2,5) by (rule equalFunc_diff)
  then show ?case by (subst removePairs_loop.simps) (simp add: p)
next
  case (Cons x xs)
  from Cons.prems have p: "p = Some x" and c: "chain h (next' (cells h x)) (xs @ a # ys)"
    and d: "dom_of (key (cells h x)) = dom_of k" and cm: "compat h xs k"
    and ne: "key (cells h x) \<noteq> k" and f: "find_key h k xs = None"
    by (simp_all split: if_splits)
  have eq: "equalFunc k (key (cells h x)) k = Inr (key (cells h x) = k)"
    using Cons.prems(2) d by (rule equalFunc_same)
  have ih: "removePairs_loop (equalFunc k) h hm k uf idx first (Some x) (next' (cells h x)) = Some (Inl TypeAssertion)"
    using c Cons.prems(2) cm f Cons.prems(5) by (rule Cons.IH)
  show ?case
    by (subst removePairs_loop.simps) (simp add: p eq ne ih)
qed

lemma find_key_split:
  "find_key h k as = Some a \<Longrightarrow>
   \<exists>pre post. as = pre @ a # post \<and> find_key h k pre = None \<and> key (cells h a) = k"
proof (induction as)
  case Nil
  then show ?case by simp
next
  case (Cons x xs)
  show ?case
  proof (cases "key (cells h x) = k")
    case True
    with Cons.prems have "a = x" by simp
    with True show ?thesis by (intro exI[of _ "[]"] exI[of _ xs]) simp
  next
    case False
    with Cons obtain pre post where "xs = pre @ a # post" "find_key h k pre = None" "key (cells h a) = k"
      by auto
    with False show ?thesis by (intro exI[of _ "x # pre"] exI[of _ post]) simp
  qed
qed

lemma chain_append:
  "chain h p (xs @ ys) \<Longrightarrow> xs \<noteq> [] \<Longrightarrow> chain h (next' (cells h (last xs))) ys"
proof (induction xs arbitrary: p)
  case Nil
  then show ?case by simp
next
  case (Cons x xs)
  then show ?case by (cases xs) auto
qed

lemma chain_unlink:
  assumes "chain h p (pre @ a # post)" "pre \<noteq> []" "distinct (pre @ a # post)"
    and "next' (cells h' (last pre)) = next' (cells h a)"
    and "\<And>x. x \<in> set pre \<union> set post \<Longrightarrow> x \<noteq> last pre \<Longrightarrow> next' (cells h' x) = next' (cells h x)"
  shows "chain h' p (pre @ post)"
  using assms
proof (induction pre arbitrary: p)
  case Nil
  then show ?case by simp
next
  case (Cons x xs)
  from Cons.prems(1) have p: "p = Some x" and c: "chain h (next' (cells h x)) (xs @ a # post)" by simp_all
  show ?case
  proof (cases xs)
    case Nil
    with c have na: "next' (cells h x) = Some a" and cp: "chain h (next' (cells h a)) post" by simp_all
    have "\<forall>z\<in>set post. next' (cells h' z) = next' (cells h z)"
    proof
      fix z assume z: "z \<in> set post"
      with Cons.prems(3) have "z \<noteq> last (x # xs)" using Nil by auto
      with z show "next' (cells h' z) = next' (cells h z)" by (intro Cons.prems(5)) simp_all
    qed
    then have "chain h' (next' (cells h a)) post = chain h (next' (cells h a)) post" by (rule chain_frame)
    with cp Cons.prems(4) Nil p show ?thesis by simp
  next
    case (Cons y ys)
    then have l: "last (x # xs) = last xs" and xne: "xs \<noteq> []" by simp_all
    have "last xs \<in> set xs" using xne by simp
    with Cons.prems(3) have "x \<noteq> last (x # xs)" using l by auto
    then have nx: "next' (cells h' x) = next' (cells h x)" by (intro Cons.prems(5)) simp_all
    have "chain h' (next' (cells h x)) (xs @ post)"
    proof (rule Cons.IH[OF c xne])
      show "distinct (xs @ a # post)" using Cons.prems(3) by simp
      show "next' (cells h' (last xs)) = next' (cells h a)" using Cons.prems(4) l by simp
      fix z assume "z \<in> set xs \<union> set post" "z \<noteq> last xs"
      then show "next' (cells h' z) = next' (cells h z)" using l by (intro Cons.prems(5)) auto
    qed
    with p nx show ?thesis by simp
  qed
qed

lemma delete_append: "AList.delete k (xs @ ys) = AList.delete k xs @ AList.delete k ys"
  by (induction xs) auto

lemma delete_entries_id:
  "(\<forall>x\<in>set xs. key (cells h x) \<noteq> k) \<Longrightarrow> AList.delete k (map (entry h) xs) = map (entry h) xs"
  by (induction xs) (auto simp: entry_def)

lemma delete_entries:
  assumes "distinct (map (\<lambda>a. key (cells h a)) (pre @ a # post))" "key (cells h a) = k"
  shows "AList.delete k (map (entry h) (pre @ a # post)) = map (entry h) (pre @ post)"
proof -
  have "\<forall>x\<in>set pre. key (cells h x) \<noteq> k" "\<forall>x\<in>set post. key (cells h x) \<noteq> k"
    using assms by (auto simp: image_iff)
  then have "AList.delete k (map (entry h) pre) = map (entry h) pre"
    "AList.delete k (map (entry h) post) = map (entry h) post"
    by (simp_all add: delete_entries_id)
  then show ?thesis using assms(2) by (simp add: delete_append entry_def)
qed

lemma cells_setPairsEmpty [simp]:
  "b \<noteq> a \<Longrightarrow> cells (setPairsEmpty h a) b = cells h b"
  by (simp add: setPairsEmpty_def)

lemma fresh_setPairsEmpty [simp]: "fresh (setPairsEmpty h a) = fresh h"
  by (simp add: setPairsEmpty_def)

lemma of_nat_pred_word: "0 < n \<Longrightarrow> (of_nat n :: 64 word) - 1 = of_nat (n - 1)"
  by (cases n) simp_all

lemma remove_props_inv:
  assumes t: "table_inv h hm bs" and il: "i < length bs" and as: "bs ! i = pre @ a # post"
    and ss: "same_shape hm hm'"
    and sl: "slices hm' = (slices hm)[i := (case pre @ post of [] \<Rightarrow> None | x # xs \<Rightarrow> Some x)]"
    and cnt: "count hm' = count hm - 1"
    and fr: "fresh h' = fresh h"
    and K: "\<And>z. z \<noteq> a \<Longrightarrow> key (cells h' z) = key (cells h z) \<and> value' (cells h' z) = value' (cells h z)"
    and F: "\<And>z. z \<notin> set (bs ! i) \<Longrightarrow> cells h' z = cells h z"
    and C: "chain h' (case pre @ post of [] \<Rightarrow> None | x # xs \<Rightarrow> Some x) (pre @ post)"
    and L: "pre @ post \<noteq> [] \<Longrightarrow> last' (cells h' (hd (pre @ post))) = Some (last (pre @ post))"
  shows "table_inv h' hm' (bs[i := pre @ post])
     \<and> abs_table h' (bs[i := pre @ post]) = (abs_table h bs)[i := AList.delete (key (cells h a)) (abs_table h bs ! i)]"
proof -
  have bi: "bucket_inv h hm i (pre @ a # post)" using table_inv_nth[OF t il] as by simp
  have d: "distinct (pre @ a # post)" using bi by (rule bucket_inv_distinct)
  have dk: "distinct (map (\<lambda>a. key (cells h a)) (pre @ a # post))" using bi by (rule bucket_inv_distinct_keys)
  have sub: "\<And>z. z \<in> set (pre @ post) \<Longrightarrow> z \<in> set (pre @ a # post) \<and> z \<noteq> a"
    using d by auto
  have kk: "map (\<lambda>a. key (cells h' a)) (pre @ post) = map (\<lambda>a. key (cells h a)) (pre @ post)"
    by (rule map_cong) (use sub K in simp_all)
  have b': "bucket_inv h' hm' i (pre @ post)"
  proof (rule bucket_invI)
    show "chain h' (slices hm' ! i) (pre @ post)"
      using C il table_inv_length[OF t] by (simp add: sl)
  next
    fix z assume "z \<in> set (pre @ post)"
    then have "z \<in> set (pre @ a # post)" using sub by simp
    with bi have "z < fresh h" by (rule bucket_inv_top)
    then show "z < fresh h'" by (simp add: fr)
  next
    fix z assume z: "z \<in> set (pre @ post)"
    then have "z \<in> set (pre @ a # post)" using sub by simp
    with bi have "supported (key (cells h z))" by (rule bucket_inv_supported)
    then show "supported (key (cells h' z))" using K sub[OF z] by simp
  next
    fix z assume z: "z \<in> set (pre @ post)"
    then have "z \<in> set (pre @ a # post)" using sub by simp
    with bi have "bucket_of hm (key (cells h z)) = i" by (rule bucket_inv_index)
    then show "bucket_of hm' (key (cells h' z)) = i" using K sub[OF z] same_shape_bucket_of[OF ss] by simp
  next
    from dk have "distinct (map (\<lambda>a. key (cells h a)) (pre @ post))" by auto
    then show "distinct (map (\<lambda>a. key (cells h' a)) (pre @ post))" by (simp only: kk)
  next
    fix z w assume z: "z \<in> set (pre @ post)" and w: "w \<in> set (pre @ post)"
    have "z \<in> set (pre @ a # post)" "w \<in> set (pre @ a # post)" using sub z w by simp_all
    with bi have "dom_of (key (cells h z)) = dom_of (key (cells h w))" by (rule bucket_inv_same_dom)
    then show "dom_of (key (cells h' z)) = dom_of (key (cells h' w))" using K sub[OF z] sub[OF w] by simp
  next
    assume "pre @ post \<noteq> []"
    then show "last' (cells h' (hd (pre @ post))) = Some (last (pre @ post))" by (rule L)
  qed
  have len: "length (concat (bs[i := pre @ post])) = length (concat bs) - 1 \<and> 0 < length (concat bs)"
  proof -
    have "length (concat (bs[i := pre @ post])) + length (bs ! i) = length (concat bs) + length (pre @ post)"
      using il by (rule length_concat_update)
    then have "Suc (length (concat (bs[i := pre @ post]))) = length (concat bs)" by (simp add: as)
    then show ?thesis by arith
  qed
  have ti: "table_inv h' hm' (bs[i := pre @ post])"
  proof (rule table_inv_step[OF t il ss sl b'])
    fix z assume "z < fresh h" "z \<notin> set (bs ! i)"
    then show "cells h' z = cells h z" using F by simp
  next
    show "fresh h \<le> fresh h'" by (simp add: fr)
    show "count hm' = of_nat (length (concat (bs[i := pre @ post])))"
      using len table_inv_count[OF t] cnt by (simp add: of_nat_pred_word)
  qed
  have ab: "abs_table h' (bs[i := pre @ post]) = (abs_table h bs)[i := map (entry h) (pre @ post)]"
  proof (rule abs_table_update[OF il])
    fix j z assume j: "j < length bs" "j \<noteq> i" "z \<in> set (bs ! j)"
    with table_inv_other_bucket[OF t il j(1,2) j(3)] have "z \<notin> set (bs ! i)" by simp
    then have "cells h' z = cells h z" by (rule F)
    then show "entry h' z = entry h z" by (simp add: entry_def)
  next
    show "map (entry h') (pre @ post) = map (entry h) (pre @ post)"
      by (rule map_cong) (use sub K in \<open>simp_all add: entry_def\<close>)
  qed
  have "AList.delete (key (cells h a)) (abs_table h bs ! i) = map (entry h) (pre @ post)"
    using delete_entries[OF dk refl] il as by (simp add: abs_table_def)
  with ti ab show ?thesis by simp
qed

lemma key_setPairsEmpty_other:
  "z \<noteq> a \<Longrightarrow> key (cells (setPairsEmpty h a) z) = key (cells h z)"
  by simp

lemma remove_at:
  assumes t: "table_inv h hm bs" and il: "i < length bs" and as: "bs ! i = pre @ a # post"
  shows "\<exists>h' hm'. removePairs h hm (key (cells h a)) uf
        = Some (Inr (h', hm', if uf then [value' (cells h a)] else []))
     \<and> table_inv h' hm' (bs[i := pre @ post])
     \<and> abs_table h' (bs[i := pre @ post]) = (abs_table h bs)[i := AList.delete (key (cells h a)) (abs_table h bs ! i)]
     \<and> fresh h' = fresh h
     \<and> (\<forall>z. z \<notin> set (bs ! i) \<longrightarrow> cells h' z = cells h z)
     \<and> (\<forall>z. z \<noteq> a \<longrightarrow> key (cells h' z) = key (cells h z) \<and> value' (cells h' z) = value' (cells h z))
     \<and> same_shape hm hm' \<and> count hm' = count hm - 1"
proof -
  let ?k = "key (cells h a)"
  let ?idx = "hashIndex hm ?k"
  have bi: "bucket_inv h hm i (pre @ a # post)" using table_inv_nth[OF t il] as by simp
  have ain: "a \<in> set (pre @ a # post)" by simp
  have s: "supported ?k" using bi ain by (rule bucket_inv_supported)
  have bk: "bucket_of hm ?k = i" using bi ain by (rule bucket_inv_index)
  have ni: "nat ?idx = i" using bk by (simp add: bucket_of_def)
  have d: "distinct (pre @ a # post)" using bi by (rule bucket_inv_distinct)
  have dk: "distinct (map (\<lambda>a. key (cells h a)) (pre @ a # post))" using bi by (rule bucket_inv_distinct_keys)
  have ch: "chain h (slices hm ! i) (pre @ a # post)" using bi by (rule bucket_inv_chain)
  have cm: "compat h pre ?k"
    unfolding compat_def
  proof
    fix z assume "z \<in> set pre"
    then have "z \<in> set (pre @ a # post)" by simp
    with bi show "dom_of (key (cells h z)) = dom_of ?k" using ain by (rule bucket_inv_same_dom)
  qed
  have fk: "find_key h ?k pre = None"
    using dk by (auto simp: find_key_None image_iff)
  have sg: "slice_get (slices hm) ?idx = Inr (slices hm ! i)"
    using table_inv_slice[OF t, of ?k] bk by simp
  have rp: "removePairs h hm ?k uf
      = Some (removePairs_found h hm uf ?idx (slices hm ! i) (if pre = [] then None else Some (last pre)) a)"
    using remove_loop_found[OF ch s cm fk refl]
    by (simp add: removePairs_def getHashIndexAndEqualFunc_eq s sg)
  have na: "next' (cells h a) = (case post of [] \<Rightarrow> None | y # ys \<Rightarrow> Some y)"
  proof -
    have "chain h p ((pre @ [a]) @ post) \<Longrightarrow> chain h (next' (cells h (last (pre @ [a])))) post" for p
      by (rule chain_append) simp_all
    with ch have "chain h (next' (cells h a)) post" by simp
    then show ?thesis by (cases post) simp_all
  qed
  have cpost: "chain h (case post of [] \<Rightarrow> None | y # ys \<Rightarrow> Some y) post"
  proof -
    have "chain h p ((pre @ [a]) @ post) \<Longrightarrow> chain h (next' (cells h (last (pre @ [a])))) post" for p
      by (rule chain_append) simp_all
    with ch have "chain h (next' (cells h a)) post" by simp
    then show ?thesis by (simp add: na)
  qed
  have la: "last' (cells h (hd (pre @ a # post))) = Some (last (pre @ a # post))"
    using bi by (rule bucket_inv_last) simp
  let ?log = "if uf then [value' (cells h a)] else []"
  have goal: "\<exists>h' hm'. removePairs_found h hm uf ?idx (slices hm ! i) (if pre = [] then None else Some (last pre)) a
        = Inr (h', hm', ?log)
      \<and> same_shape hm hm'
      \<and> slices hm' = (slices hm)[i := (case pre @ post of [] \<Rightarrow> None | x # xs \<Rightarrow> Some x)]
      \<and> count hm' = count hm - 1
      \<and> fresh h' = fresh h
      \<and> (\<forall>z. z \<noteq> a \<longrightarrow> key (cells h' z) = key (cells h z) \<and> value' (cells h' z) = value' (cells h z))
      \<and> (\<forall>z. z \<notin> set (bs ! i) \<longrightarrow> cells h' z = cells h z)
      \<and> chain h' (case pre @ post of [] \<Rightarrow> None | x # xs \<Rightarrow> Some x) (pre @ post)
      \<and> (pre @ post \<noteq> [] \<longrightarrow> last' (cells h' (hd (pre @ post))) = Some (last (pre @ post)))"
  proof (cases pre)
    case Nil
    note pre = Nil
    show ?thesis
    proof (cases post)
      case Nil
      let ?h' = "setPairsEmpty h a"
      let ?hm' = "hm\<lparr>slices := (slices hm)[i := None], count := count hm - 1\<rparr>"
      have "removePairs_found h hm uf ?idx (slices hm ! i) None a = Inr (?h', ?hm', ?log)"
        using na Nil by (simp add: removePairs_found_def ni)
      moreover have "\<forall>z. z \<notin> set (bs ! i) \<longrightarrow> cells ?h' z = cells h z"
        using as by auto
      ultimately show ?thesis using pre Nil by (intro exI[of _ ?h'] exI[of _ ?hm']) simp
    next
      case (Cons y ys)
      have ya: "y \<noteq> a" using d Cons by auto
      let ?h1 = "upd h y (\<lambda>c. c\<lparr>last' := last' (cells h a)\<rparr>)"
      let ?h' = "setPairsEmpty ?h1 a"
      let ?hm' = "hm\<lparr>slices := (slices hm)[i := Some y], count := count hm - 1\<rparr>"
      have rf: "removePairs_found h hm uf ?idx (slices hm ! i) None a = Inr (?h', ?hm', ?log)"
        using na Cons ya by (simp add: removePairs_found_def ni)
      have fr: "\<forall>z. z \<notin> set (bs ! i) \<longrightarrow> cells ?h' z = cells h z"
        using as Cons by auto
      have kv: "\<forall>z. z \<noteq> a \<longrightarrow> key (cells ?h' z) = key (cells h z) \<and> value' (cells ?h' z) = value' (cells h z)"
        by simp
      have "\<forall>z\<in>set post. next' (cells ?h' z) = next' (cells h z)"
      proof
        fix z assume "z \<in> set post"
        then have "z \<noteq> a" using d by auto
        then show "next' (cells ?h' z) = next' (cells h z)" by simp
      qed
      then have "chain ?h' (Some y) post = chain h (Some y) post" by (rule chain_frame)
      with cpost Cons have c': "chain ?h' (Some y) post" by simp
      have l': "last' (cells ?h' y) = Some (last post)"
        using la pre Cons ya by simp
      show ?thesis using pre Cons rf fr kv c' l' by (intro exI[of _ ?h'] exI[of _ ?hm']) simp
    qed
  next
    case (Cons x xs)
    define p where "p = last pre"
    have pne: "pre \<noteq> []" using Cons by simp
    have pin: "p \<in> set pre" using pne by (simp add: p_def)
    have pa: "p \<noteq> a" using d pin by auto
    have xa: "x \<noteq> a" using d Cons by auto
    have sx: "slices hm ! i = Some x" using ch Cons by simp
    have hdx: "hd (pre @ a # post) = x" "hd (pre @ post) = x" using Cons by simp_all
    let ?h1 = "upd h p (\<lambda>c. c\<lparr>next' := next' (cells h a)\<rparr>)"
    show ?thesis
    proof (cases post)
      case Nil
      let ?h2 = "upd ?h1 x (\<lambda>c. c\<lparr>last' := Some p\<rparr>)"
      let ?h' = "setPairsEmpty ?h2 a"
      let ?hm' = "hm\<lparr>count := count hm - 1\<rparr>"
      have rf: "removePairs_found h hm uf ?idx (slices hm ! i) (Some p) a = Inr (?h', ?hm', ?log)"
        using na Nil pa xa sx by (simp add: removePairs_found_def Let_def)
      have fr: "\<forall>z. z \<notin> set (bs ! i) \<longrightarrow> cells ?h' z = cells h z"
        using as pin Cons by auto
      have kv: "\<forall>z. z \<noteq> a \<longrightarrow> key (cells ?h' z) = key (cells h z) \<and> value' (cells ?h' z) = value' (cells h z)"
        by simp
      have c': "chain ?h' (slices hm ! i) (pre @ post)"
      proof (rule chain_unlink[OF ch pne d])
        show "next' (cells ?h' (last pre)) = next' (cells h a)" using pa by (simp add: p_def)
        fix z assume z: "z \<in> set pre \<union> set post" "z \<noteq> last pre"
        then have "z \<noteq> a" using d by auto
        then show "next' (cells ?h' z) = next' (cells h z)" using z(2) by (simp add: p_def)
      qed
      have l': "last' (cells ?h' x) = Some (last (pre @ post))"
        using xa Nil by (simp add: p_def)
      have sl: "slices ?hm' = (slices hm)[i := Some x]"
        using sx[symmetric] by simp
      show ?thesis using rf fr kv c' l' sl sx hdx Cons pne by (intro exI[of _ ?h'] exI[of _ ?hm']) (simp add: p_def)
    next
      case (Cons y ys)
      let ?h' = "setPairsEmpty ?h1 a"
      let ?hm' = "hm\<lparr>count := count hm - 1\<rparr>"
      have rf: "removePairs_found h hm uf ?idx (slices hm ! i) (Some p) a = Inr (?h', ?hm', ?log)"
        using na Cons pa xa sx by (simp add: removePairs_found_def Let_def)
      have fr: "\<forall>z. z \<notin> set (bs ! i) \<longrightarrow> cells ?h' z = cells h z"
        using as pin by auto
      have kv: "\<forall>z. z \<noteq> a \<longrightarrow> key (cells ?h' z) = key (cells h z) \<and> value' (cells ?h' z) = value' (cells h z)"
        by simp
      have c': "chain ?h' (slices hm ! i) (pre @ post)"
      proof (rule chain_unlink[OF ch pne d])
        show "next' (cells ?h' (last pre)) = next' (cells h a)" using pa by (simp add: p_def)
        fix z assume z: "z \<in> set pre \<union> set post" "z \<noteq> last pre"
        then have "z \<noteq> a" using d by auto
        then show "next' (cells ?h' z) = next' (cells h z)" using z(2) by (simp add: p_def)
      qed
      have l': "last' (cells ?h' x) = Some (last (pre @ post))"
        using xa la hdx Cons by auto
      have sl: "slices ?hm' = (slices hm)[i := Some x]"
        using sx[symmetric] by simp
      show ?thesis using rf fr kv c' l' sl sx hdx \<open>pre = x # xs\<close> pne by (intro exI[of _ ?h'] exI[of _ ?hm']) (simp add: p_def)
    qed
  qed
  then obtain h' hm' where
    rf: "removePairs_found h hm uf ?idx (slices hm ! i) (if pre = [] then None else Some (last pre)) a
        = Inr (h', hm', ?log)"
    and ss: "same_shape hm hm'"
    and sl: "slices hm' = (slices hm)[i := (case pre @ post of [] \<Rightarrow> None | x # xs \<Rightarrow> Some x)]"
    and cnt: "count hm' = count hm - 1"
    and fr: "fresh h' = fresh h"
    and K: "\<forall>z. z \<noteq> a \<longrightarrow> key (cells h' z) = key (cells h z) \<and> value' (cells h' z) = value' (cells h z)"
    and F: "\<forall>z. z \<notin> set (bs ! i) \<longrightarrow> cells h' z = cells h z"
    and C: "chain h' (case pre @ post of [] \<Rightarrow> None | x # xs \<Rightarrow> Some x) (pre @ post)"
    and L: "pre @ post \<noteq> [] \<longrightarrow> last' (cells h' (hd (pre @ post))) = Some (last (pre @ post))"
    by blast
  have "table_inv h' hm' (bs[i := pre @ post])
     \<and> abs_table h' (bs[i := pre @ post]) = (abs_table h bs)[i := AList.delete ?k (abs_table h bs ! i)]"
    using t il as ss sl cnt fr _ _ C by (rule remove_props_inv) (use K F L in simp_all)
  then show ?thesis using rp rf ss cnt fr K F
    by (intro exI[of _ h'] exI[of _ hm']) simp
qed

lemma map_fst_entry: "map fst (map (entry h) as) = map (\<lambda>a. key (cells h a)) as"
  by (simp add: entry_def)

lemma table_inv_abs_inv:
  assumes t: "table_inv h hm bs"
  shows "abs_inv hm (abs_table h bs)"
  unfolding abs_inv_def
proof (intro conjI allI impI ballI)
  show "hm_shape hm" using t by (rule table_inv_shape)
  show "length (abs_table h bs) = length (slices hm)"
    using table_inv_length[OF t] by (simp add: abs_table_def)
next
  fix i assume "i < length (abs_table h bs)"
  then have il: "i < length bs" by (simp add: abs_table_def)
  then have bi: "bucket_inv h hm i (bs ! i)" using t table_inv_nth by blast
  have e: "abs_table h bs ! i = map (entry h) (bs ! i)" using il by (simp add: abs_table_def)
  show "distinct (map fst (abs_table h bs ! i))"
    using bucket_inv_distinct_keys[OF bi] by (simp only: e map_fst_entry)
  fix x assume "x \<in> set (abs_table h bs ! i)"
  then obtain a where a: "a \<in> set (bs ! i)" "x = entry h a" by (auto simp: e)
  show "supported (fst x)" using bucket_inv_supported[OF bi a(1)] a(2) by (simp add: entry_def)
  show "bucket_of hm (fst x) = i" using bucket_inv_index[OF bi a(1)] a(2) by (simp add: entry_def)
  fix y assume "y \<in> set (abs_table h bs ! i)"
  then obtain b where b: "b \<in> set (bs ! i)" "y = entry h b" by (auto simp: e)
  show "dom_of (fst x) = dom_of (fst y)"
    using bucket_inv_same_dom[OF bi a(1) b(1)] a(2) b(2) by (simp add: entry_def)
qed

lemma in_concat_nth: "e \<in> set (concat T) \<longleftrightarrow> (\<exists>j<length T. e \<in> set (T ! j))"
proof
  assume "e \<in> set (concat T)"
  then obtain xs where xs: "xs \<in> set T" "e \<in> set xs" by auto
  from xs(1) obtain j where "j < length T" "T ! j = xs" by (auto simp: in_set_conv_nth)
  with xs(2) show "\<exists>j<length T. e \<in> set (T ! j)" by blast
next
  assume "\<exists>j<length T. e \<in> set (T ! j)"
  then obtain j where j: "j < length T" "e \<in> set (T ! j)" by blast
  from j(1) have "T ! j \<in> set T" by (rule nth_mem)
  with j(2) show "e \<in> set (concat T)" by auto
qed

lemma abs_inv_bucket_lt: "abs_inv hm T \<Longrightarrow> bucket_of hm k < length T"
proof -
  assume a: "abs_inv hm T"
  then have "hm_shape hm" "length T = length (slices hm)" by (simp_all add: abs_inv_def)
  with hashIndex_range[of hm k] show ?thesis by (simp add: bucket_of_def) linarith
qed

lemma abs_inv_mem:
  assumes "abs_inv hm T" "e \<in> set (concat T)"
  shows "e \<in> set (T ! bucket_of hm (fst e)) \<and> supported (fst e)"
proof -
  from assms(2) obtain j where j: "j < length T" "e \<in> set (T ! j)"
    unfolding in_concat_nth by blast
  with assms(1) have "bucket_of hm (fst e) = j" "supported (fst e)" by (auto simp: abs_inv_def)
  with j show ?thesis by simp
qed

lemma abs_inv_distinct_bucket: "abs_inv hm T \<Longrightarrow> i < length T \<Longrightarrow> distinct (map fst (T ! i))"
  by (simp add: abs_inv_def)

lemma distinct_concat_buckets:
  assumes "\<And>i. i < length T \<Longrightarrow> distinct (map f (T ! i))"
    and "\<And>i x. i < length T \<Longrightarrow> x \<in> set (T ! i) \<Longrightarrow> g (f x) = i + n"
  shows "distinct (map f (concat T))"
  using assms
proof (induction T arbitrary: n)
  case Nil
  then show ?case by simp
next
  case (Cons b T)
  have d0: "distinct (map f b)" using Cons.prems(1)[of 0] by simp
  have dT: "distinct (map f (concat T))"
  proof (rule Cons.IH[of "Suc n"])
    fix i assume "i < length T"
    then show "distinct (map f (T ! i))" using Cons.prems(1)[of "Suc i"] by simp
  next
    fix i x assume "i < length T" "x \<in> set (T ! i)"
    then show "g (f x) = i + Suc n" using Cons.prems(2)[of "Suc i" x] by simp
  qed
  have "f ` set b \<inter> f ` set (concat T) = {}"
  proof (rule ccontr)
    assume "f ` set b \<inter> f ` set (concat T) \<noteq> {}"
    then obtain x y where x: "x \<in> set b" and y: "y \<in> set (concat T)" and e: "f x = f y" by auto
    from y obtain j where j: "j < length T" "y \<in> set (T ! j)" unfolding in_concat_nth by blast
    have "g (f x) = 0 + n" using Cons.prems(2)[of 0 x] x by simp
    moreover have "g (f y) = Suc j + n" using Cons.prems(2)[of "Suc j" y] j by simp
    ultimately show False using e by simp
  qed
  with d0 dT show ?case by simp
qed

lemma abs_inv_distinct: "abs_inv hm T \<Longrightarrow> distinct (map fst (concat T))"
proof (rule distinct_concat_buckets[where g = "bucket_of hm" and n = 0])
  fix i assume "abs_inv hm T" "i < length T"
  then show "distinct (map fst (T ! i))" by (rule abs_inv_distinct_bucket)
next
  fix i x assume "abs_inv hm T" "i < length T" "x \<in> set (T ! i)"
  then show "bucket_of hm (fst x) = i + 0" by (simp add: abs_inv_def)
qed

lemma abs_inv_map_of:
  assumes a: "abs_inv hm T"
  shows "map_of (concat T) k = map_of (T ! bucket_of hm k) k"
proof -
  have d: "distinct (map fst (concat T))" using a by (rule abs_inv_distinct)
  have il: "bucket_of hm k < length T" using a by (rule abs_inv_bucket_lt)
  have di: "distinct (map fst (T ! bucket_of hm k))" using a il by (rule abs_inv_distinct_bucket)
  have "map_of (concat T) k = Some v \<longleftrightarrow> map_of (T ! bucket_of hm k) k = Some v" for v
  proof
    assume "map_of (concat T) k = Some v"
    then have "(k, v) \<in> set (concat T)" by (rule map_of_SomeD)
    with a have "(k, v) \<in> set (T ! bucket_of hm (fst (k, v))) \<and> supported (fst (k, v))" by (rule abs_inv_mem)
    then have "(k, v) \<in> set (T ! bucket_of hm k)" by simp
    with di show "map_of (T ! bucket_of hm k) k = Some v" by simp
  next
    assume "map_of (T ! bucket_of hm k) k = Some v"
    then have "(k, v) \<in> set (T ! bucket_of hm k)" by (rule map_of_SomeD)
    with il have "(k, v) \<in> set (concat T)" unfolding in_concat_nth by blast
    with d show "map_of (concat T) k = Some v" by simp
  qed
  then have iff: "\<And>v. map_of (concat T) k = Some v \<longleftrightarrow> map_of (T ! bucket_of hm k) k = Some v" .
  show ?thesis
  proof (cases "map_of (T ! bucket_of hm k) k")
    case None
    have "map_of (concat T) k = None"
    proof (rule ccontr)
      assume "map_of (concat T) k \<noteq> None"
      then obtain v where "map_of (concat T) k = Some v" by blast
      then have "map_of (T ! bucket_of hm k) k = Some v" by (rule iff[THEN iffD1])
      with None show False by simp
    qed
    with None show ?thesis by simp
  next
    case (Some v)
    then have "map_of (concat T) k = Some v" by (rule iff[THEN iffD2])
    with Some show ?thesis by simp
  qed
qed

lemma abs_put_map:
  assumes a: "abs_inv hm T" and a': "abs_inv hm T'"
    and e: "T' = T[bucket_of hm k := AList.update k v (T ! bucket_of hm k)]"
  shows "map_of (concat T') = (map_of (concat T))(k \<mapsto> v)"
proof
  fix k'
  have il: "bucket_of hm k < length T" using a by (rule abs_inv_bucket_lt)
  have il': "bucket_of hm k' < length T" using a by (rule abs_inv_bucket_lt)
  have l: "map_of (concat T') k' = map_of (T' ! bucket_of hm k') k'" using a' by (rule abs_inv_map_of)
  have r: "map_of (concat T) k' = map_of (T ! bucket_of hm k') k'" using a by (rule abs_inv_map_of)
  show "map_of (concat T') k' = ((map_of (concat T))(k \<mapsto> v)) k'"
  proof (cases "bucket_of hm k' = bucket_of hm k")
    case True
    then have "T' ! bucket_of hm k' = AList.update k v (T ! bucket_of hm k')" using il e by simp
    then show ?thesis unfolding l by (simp add: r update_conv')
  next
    case False
    then have "k' \<noteq> k" by auto
    moreover have "T' ! bucket_of hm k' = T ! bucket_of hm k'" using False e by simp
    ultimately show ?thesis unfolding l by (simp add: r)
  qed
qed

lemma abs_delete_map:
  assumes a: "abs_inv hm T" and a': "abs_inv hm T'"
    and e: "T' = T[bucket_of hm k := AList.delete k (T ! bucket_of hm k)]"
  shows "map_of (concat T') = (map_of (concat T))(k := None)"
proof
  fix k'
  have il: "bucket_of hm k < length T" using a by (rule abs_inv_bucket_lt)
  have il': "bucket_of hm k' < length T" using a by (rule abs_inv_bucket_lt)
  have l: "map_of (concat T') k' = map_of (T' ! bucket_of hm k') k'" using a' by (rule abs_inv_map_of)
  have r: "map_of (concat T) k' = map_of (T ! bucket_of hm k') k'" using a by (rule abs_inv_map_of)
  show "map_of (concat T') k' = ((map_of (concat T))(k := None)) k'"
  proof (cases "bucket_of hm k' = bucket_of hm k")
    case True
    then have "T' ! bucket_of hm k' = AList.delete k (T ! bucket_of hm k')" using il e by simp
    then show ?thesis unfolding l by (simp add: r delete_conv')
  next
    case False
    then have "k' \<noteq> k" by auto
    moreover have "T' ! bucket_of hm k' = T ! bucket_of hm k'" using False e by simp
    ultimately show ?thesis unfolding l by (simp add: r)
  qed
qed

lemma same_shape_sym: "same_shape hm hm' \<Longrightarrow> same_shape hm' hm"
  by (simp add: same_shape_def)

lemma abs_invI:
  "hm_shape hm \<Longrightarrow> length T = length (slices hm) \<Longrightarrow>
   (\<And>i. i < length T \<Longrightarrow> distinct (map fst (T ! i))) \<Longrightarrow>
   (\<And>i e. i < length T \<Longrightarrow> e \<in> set (T ! i) \<Longrightarrow> supported (fst e)) \<Longrightarrow>
   (\<And>i e. i < length T \<Longrightarrow> e \<in> set (T ! i) \<Longrightarrow> bucket_of hm (fst e) = i) \<Longrightarrow>
   (\<And>i e e'. i < length T \<Longrightarrow> e \<in> set (T ! i) \<Longrightarrow> e' \<in> set (T ! i) \<Longrightarrow> dom_of (fst e) = dom_of (fst e')) \<Longrightarrow>
   abs_inv hm T"
  unfolding abs_inv_def by blast

lemma abs_inv_shape: "abs_inv hm T \<Longrightarrow> hm_shape hm"
  unfolding abs_inv_def by blast

lemma abs_inv_length: "abs_inv hm T \<Longrightarrow> length T = length (slices hm)"
  unfolding abs_inv_def by blast

lemma abs_inv_supported: "abs_inv hm T \<Longrightarrow> i < length T \<Longrightarrow> e \<in> set (T ! i) \<Longrightarrow> supported (fst e)"
  unfolding abs_inv_def by blast

lemma abs_inv_index: "abs_inv hm T \<Longrightarrow> i < length T \<Longrightarrow> e \<in> set (T ! i) \<Longrightarrow> bucket_of hm (fst e) = i"
  unfolding abs_inv_def by blast

lemma abs_inv_dom:
  "abs_inv hm T \<Longrightarrow> i < length T \<Longrightarrow> e \<in> set (T ! i) \<Longrightarrow> e' \<in> set (T ! i) \<Longrightarrow>
   dom_of (fst e) = dom_of (fst e')"
  unfolding abs_inv_def by blast

lemma abs_inv_same_shape:
  assumes s: "same_shape hm hm'" and a: "abs_inv hm' T"
  shows "abs_inv hm T"
proof (rule abs_invI)
  have "hm_shape hm'" using a by (rule abs_inv_shape)
  with same_shape_sym[OF s] show "hm_shape hm" by (rule same_shape_hm_shape)
  have "length (slices hm') = length (slices hm)" using s by (simp add: same_shape_def)
  with abs_inv_length[OF a] show "length T = length (slices hm)" by simp
next
  fix i assume "i < length T"
  with a show "distinct (map fst (T ! i))" by (rule abs_inv_distinct_bucket)
next
  fix i e assume "i < length T" "e \<in> set (T ! i)"
  with a show "supported (fst e)" by (rule abs_inv_supported)
next
  fix i e assume "i < length T" "e \<in> set (T ! i)"
  with a have "bucket_of hm' (fst e) = i" by (rule abs_inv_index)
  with same_shape_bucket_of[OF s] show "bucket_of hm (fst e) = i" by simp
next
  fix i e e' assume "i < length T" "e \<in> set (T ! i)" "e' \<in> set (T ! i)"
  with a show "dom_of (fst e) = dom_of (fst e')" by (rule abs_inv_dom)
qed

lemma gmap_bucket:
  "table_inv h hm bs \<Longrightarrow> gmap h bs k = map_of (map (entry h) (bs ! bucket_of hm k)) k"
proof -
  assume t: "table_inv h hm bs"
  have il: "bucket_of hm k < length bs" using table_inv_bucket[OF t] by simp
  have "gmap h bs k = map_of (abs_table h bs ! bucket_of hm k) k"
    unfolding gmap_def using table_inv_abs_inv[OF t] by (rule abs_inv_map_of)
  then show ?thesis using il by (simp add: abs_table_def)
qed

lemma gmap_find:
  "table_inv h hm bs \<Longrightarrow>
   gmap h bs k = map_option (\<lambda>a. value' (cells h a)) (find_key h k (bs ! bucket_of hm k))"
  by (simp add: gmap_bucket map_of_entries)

lemma present_compat:
  assumes t: "table_inv h hm bs" and g: "gmap h bs k = Some v"
  shows "supported k \<and> compat h (bs ! bucket_of hm k) k"
proof -
  let ?i = "bucket_of hm k"
  from table_inv_bucket[OF t, of k] have il: "?i < length bs" and bi: "bucket_inv h hm ?i (bs ! ?i)" by simp_all
  from g obtain a where f: "find_key h k (bs ! ?i) = Some a" by (auto simp: gmap_find[OF t])
  then have a: "a \<in> set (bs ! ?i)" "key (cells h a) = k" using find_key_in by blast+
  have "supported k" using bucket_inv_supported[OF bi a(1)] a(2) by simp
  moreover have "compat h (bs ! ?i) k"
    unfolding compat_def
  proof
    fix z assume "z \<in> set (bs ! ?i)"
    with bi have "dom_of (key (cells h z)) = dom_of (key (cells h a))" using a(1) by (rule bucket_inv_same_dom)
    then show "dom_of (key (cells h z)) = dom_of k" using a(2) by simp
  qed
  ultimately show ?thesis by simp
qed

lemma Get_spec:
  assumes "table_inv h hm bs" "supported k" "compat h (bs ! bucket_of hm k) k"
  shows "Get h hm k = Some (Inr (case gmap h bs k of None \<Rightarrow> None | Some v \<Rightarrow> v))"
  using Get_compat[OF assms] gmap_bucket[OF assms(1), of k] by (simp add: lookup_def)

lemma Get_present:
  assumes "table_inv h hm bs" "gmap h bs k = Some v"
  shows "Get h hm k = Some (Inr v)"
  using Get_spec[OF assms(1)] present_compat[OF assms] assms(2) by simp

lemma Exists_spec:
  assumes "table_inv h hm bs" "supported k" "compat h (bs ! bucket_of hm k) k"
  shows "Exists h hm k = Some (Inr (gmap h bs k \<noteq> None))"
  by (simp add: Exists_def getPairsUnsafe_compat[OF assms] gmap_find[OF assms(1)])

lemma Get_not_compat:
  "table_inv h hm bs \<Longrightarrow> supported k \<Longrightarrow> \<not> compat h (bs ! bucket_of hm k) k \<Longrightarrow>
   Get h hm k = Some (Inl TypeAssertion)"
  by (simp add: Get_def getPairsUnsafe_not_compat)

lemma Get_unsupported: "\<not> supported k \<Longrightarrow> Get h hm k = Some (Inl BadKeyType)"
  by (simp add: Get_def getPairsUnsafe_unsupported)

lemma removePairs_unsupported: "\<not> supported k \<Longrightarrow> removePairs h hm k uf = Some (Inl BadKeyType)"
  by (simp add: removePairs_def getHashIndexAndEqualFunc_eq)

lemma removePairs_not_compat:
  assumes "table_inv h hm bs" "supported k" "\<not> compat h (bs ! bucket_of hm k) k"
  shows "removePairs h hm k uf = Some (Inl TypeAssertion)"
proof -
  from table_inv_bucket[OF assms(1)] have b: "bucket_inv h hm (bucket_of hm k) (bs ! bucket_of hm k)" by simp
  then have c: "chain h (slices hm ! bucket_of hm k) (bs ! bucket_of hm k)" by (rule bucket_inv_chain)
  from bucket_inv_not_compat[OF b assms(3)] obtain a ys where
    as: "bs ! bucket_of hm k = a # ys" and d: "dom_of (key (cells h a)) \<noteq> dom_of k" by blast
  from c as have c': "chain h (slices hm ! bucket_of hm k) ([] @ a # ys)" by simp
  have l: "removePairs_loop (equalFunc k) h hm k uf (hashIndex hm k) (slices hm ! bucket_of hm k) None
       (slices hm ! bucket_of hm k) = Some (Inl TypeAssertion)"
    using c' assms(2) _ _ d by (rule remove_loop_panic) simp_all
  show ?thesis
    by (simp add: removePairs_def getHashIndexAndEqualFunc_eq assms(2) table_inv_slice[OF assms(1)] l)
qed

lemma removePairs_absent:
  assumes t: "table_inv h hm bs" and s: "supported k" and c: "compat h (bs ! bucket_of hm k) k"
    and g: "gmap h bs k = None"
  shows "removePairs h hm k uf = Some (Inr (h, hm, []))"
proof -
  from table_inv_bucket[OF t] have b: "bucket_inv h hm (bucket_of hm k) (bs ! bucket_of hm k)" by simp
  then have ch: "chain h (slices hm ! bucket_of hm k) (bs ! bucket_of hm k)" by (rule bucket_inv_chain)
  from g have f: "find_key h k (bs ! bucket_of hm k) = None" by (simp add: gmap_find[OF t])
  have l: "removePairs_loop (equalFunc k) h hm k uf (hashIndex hm k) (slices hm ! bucket_of hm k) None
       (slices hm ! bucket_of hm k) = Some (Inr (h, hm, []))"
    using ch s c f by (rule remove_loop_absent)
  show ?thesis
    by (simp add: removePairs_def getHashIndexAndEqualFunc_eq s table_inv_slice[OF t] l)
qed

lemma removePairs_present:
  assumes t: "table_inv h hm bs" and g: "gmap h bs k = Some v"
  shows "\<exists>h' hm' bs'. removePairs h hm k uf = Some (Inr (h', hm', if uf then [v] else []))
     \<and> table_inv h' hm' bs'
     \<and> abs_table h' bs' = (abs_table h bs)[bucket_of hm k := AList.delete k (abs_table h bs ! bucket_of hm k)]
     \<and> fresh h' = fresh h
     \<and> (\<forall>z. z \<notin> set (concat bs) \<longrightarrow> cells h' z = cells h z)
     \<and> set (concat bs') \<subseteq> set (concat bs)
     \<and> same_shape hm hm' \<and> count hm' = count hm - 1"
proof -
  let ?i = "bucket_of hm k"
  from table_inv_bucket[OF t, of k] have il: "?i < length bs" by simp
  from g obtain a where f: "find_key h k (bs ! ?i) = Some a" and va: "value' (cells h a) = v"
    by (auto simp: gmap_find[OF t])
  from find_key_split[OF f] obtain pre post where
    as: "bs ! ?i = pre @ a # post" and ka: "key (cells h a) = k" by blast
  from remove_at[OF t il as, of uf] obtain h' hm' where
    r: "removePairs h hm (key (cells h a)) uf = Some (Inr (h', hm', if uf then [value' (cells h a)] else []))"
    and ti: "table_inv h' hm' (bs[?i := pre @ post])"
    and ab: "abs_table h' (bs[?i := pre @ post]) = (abs_table h bs)[?i := AList.delete (key (cells h a)) (abs_table h bs ! ?i)]"
    and fr: "fresh h' = fresh h"
    and F: "\<forall>z. z \<notin> set (bs ! ?i) \<longrightarrow> cells h' z = cells h z"
    and ss: "same_shape hm hm'" and cnt: "count hm' = count hm - 1" by blast
  have "bs ! ?i \<in> set bs" using il by (rule nth_mem)
  then have sub: "set (bs ! ?i) \<subseteq> set (concat bs)" by auto
  have "set (concat (bs[?i := pre @ post])) \<subseteq> set (concat bs) \<union> set (pre @ post)"
    by (rule set_concat_update)
  moreover have "set (pre @ post) \<subseteq> set (bs ! ?i)" using as by auto
  ultimately have s2: "set (concat (bs[?i := pre @ post])) \<subseteq> set (concat bs)" using sub by blast
  have F2: "\<forall>z. z \<notin> set (concat bs) \<longrightarrow> cells h' z = cells h z" using F sub by blast
  show ?thesis
    using r ti ab fr F2 s2 ss cnt ka va
    by (intro exI[of _ h'] exI[of _ hm'] exI[of _ "bs[?i := pre @ post]"]) simp
qed

lemma abs_table_delete_absent:
  assumes t: "table_inv h hm bs" and g: "gmap h bs k = None"
  shows "(abs_table h bs)[bucket_of hm k := AList.delete k (abs_table h bs ! bucket_of hm k)] = abs_table h bs"
proof -
  from table_inv_bucket[OF t, of k] have il: "bucket_of hm k < length bs" by simp
  from g have "find_key h k (bs ! bucket_of hm k) = None" by (simp add: gmap_find[OF t])
  then have "k \<notin> fst ` set (map (entry h) (bs ! bucket_of hm k))" by (rule find_key_None_keys)
  then have "AList.delete k (abs_table h bs ! bucket_of hm k) = abs_table h bs ! bucket_of hm k"
    using il by (simp add: abs_table_def)
  then show ?thesis by simp
qed

lemma length_concat_abs: "length (concat (abs_table h bs)) = length (concat bs)"
  by (induction bs) (simp_all add: abs_table_def)

lemma gmap_card:
  assumes t: "table_inv h hm bs"
  shows "card (dom (gmap h bs)) = length (concat bs)" and "finite (dom (gmap h bs))"
proof -
  let ?es = "concat (abs_table h bs)"
  have d: "distinct (map fst ?es)" using table_inv_abs_inv[OF t] by (rule abs_inv_distinct)
  have "dom (gmap h bs) = set (map fst ?es)" by (simp add: gmap_def dom_map_of_conv_image_fst)
  then have "card (dom (gmap h bs)) = length (map fst ?es)" using d by (simp only: distinct_card)
  then show "card (dom (gmap h bs)) = length (concat bs)" by (simp add: length_concat_abs)
  show "finite (dom (gmap h bs))" by (simp add: gmap_def finite_dom_map_of)
qed

lemma table_inv_GetCount:
  "table_inv h hm bs \<Longrightarrow> GetCount hm = of_nat (card (dom (gmap h bs)))"
  by (simp add: GetCount_def gmap_card table_inv_count)

lemma Put_ok:
  assumes t: "table_inv h hm bs" and p: "Put h hm k v = Some (Inr (h', hm'))"
  shows "supported k \<and> compat h (bs ! bucket_of hm k) k
     \<and> (\<exists>bs'. table_inv h' hm' bs' \<and> gmap h' bs' = (gmap h bs)(k \<mapsto> v)
          \<and> set (concat bs') \<subseteq> set (concat bs) \<union> {a. fresh h \<le> a})
     \<and> fresh h \<le> fresh h'
     \<and> (\<forall>a<fresh h. a \<notin> set (concat bs) \<longrightarrow> cells h' a = cells h a)
     \<and> same_shape hm hm'"
proof -
  have s: "supported k" using p Put_unsupported[of k h hm v] by auto
  have c: "compat h (bs ! bucket_of hm k) k" using p Put_not_compat[OF t s, of v] by auto
  from Put_spec[OF t s c, of v] p obtain bs' where
    ti: "table_inv h' hm' bs'"
    and ab: "abs_table h' bs' = (abs_table h bs)[bucket_of hm k := AList.update k v (abs_table h bs ! bucket_of hm k)]"
    and fr: "fresh h \<le> fresh h'"
    and F: "\<forall>a<fresh h. a \<notin> set (concat bs) \<longrightarrow> cells h' a = cells h a"
    and sub: "set (concat bs') \<subseteq> set (concat bs) \<union> {a. fresh h \<le> a}"
    and ss: "same_shape hm hm'" by auto
  have a: "abs_inv hm (abs_table h bs)" using t by (rule table_inv_abs_inv)
  have "abs_inv hm' (abs_table h' bs')" using ti by (rule table_inv_abs_inv)
  with ss have a': "abs_inv hm (abs_table h' bs')" by (rule abs_inv_same_shape)
  have "gmap h' bs' = (gmap h bs)(k \<mapsto> v)"
    unfolding gmap_def using a a' ab by (rule abs_put_map)
  with s c ti fr F sub ss show ?thesis by blast
qed

lemma Put_total:
  assumes t: "table_inv h hm bs" and s: "supported k" and c: "compat h (bs ! bucket_of hm k) k"
  shows "\<exists>h' hm'. Put h hm k v = Some (Inr (h', hm'))"
  using Put_spec[OF t s c, of v] by blast

lemma removePairs_ok:
  assumes t: "table_inv h hm bs" and p: "removePairs h hm k uf = Some (Inr (h', hm', calls))"
  shows "supported k \<and> compat h (bs ! bucket_of hm k) k
     \<and> (\<exists>bs'. table_inv h' hm' bs' \<and> gmap h' bs' = (gmap h bs)(k := None)
          \<and> set (concat bs') \<subseteq> set (concat bs))
     \<and> fresh h' = fresh h
     \<and> (\<forall>z. z \<notin> set (concat bs) \<longrightarrow> cells h' z = cells h z)
     \<and> same_shape hm hm'
     \<and> (gmap h bs k = None \<longrightarrow> h' = h \<and> hm' = hm \<and> calls = [])
     \<and> (\<forall>v. gmap h bs k = Some v \<longrightarrow> calls = (if uf then [v] else []) \<and> count hm' = count hm - 1)"
proof -
  have s: "supported k" using p removePairs_unsupported[of k h hm uf] by auto
  have c: "compat h (bs ! bucket_of hm k) k" using p removePairs_not_compat[OF t s, of uf] by auto
  show ?thesis
  proof (cases "gmap h bs k")
    case None
    from removePairs_absent[OF t s c None, of uf] p have e: "h' = h" "hm' = hm" "calls = []" by simp_all
    have "gmap h bs = (gmap h bs)(k := None)" using None by auto
    with e t s c None show ?thesis by auto
  next
    case (Some v)
    from removePairs_present[OF t Some, of uf] p obtain bs' where
      c1: "calls = (if uf then [v] else [])"
      and ti: "table_inv h' hm' bs'"
      and ab: "abs_table h' bs' = (abs_table h bs)[bucket_of hm k := AList.delete k (abs_table h bs ! bucket_of hm k)]"
      and fr: "fresh h' = fresh h"
      and F: "\<forall>z. z \<notin> set (concat bs) \<longrightarrow> cells h' z = cells h z"
      and sub: "set (concat bs') \<subseteq> set (concat bs)"
      and ss: "same_shape hm hm'" and cnt: "count hm' = count hm - 1" by auto
    have a: "abs_inv hm (abs_table h bs)" using t by (rule table_inv_abs_inv)
    have "abs_inv hm' (abs_table h' bs')" using ti by (rule table_inv_abs_inv)
    with ss have a': "abs_inv hm (abs_table h' bs')" by (rule abs_inv_same_shape)
    have "gmap h' bs' = (gmap h bs)(k := None)"
      unfolding gmap_def using a a' ab by (rule abs_delete_map)
    with s c ti fr F sub ss c1 cnt Some show ?thesis by auto
  qed
qed

lemma removePairs_total:
  assumes t: "table_inv h hm bs" and s: "supported k" and c: "compat h (bs ! bucket_of hm k) k"
  shows "\<exists>h' hm' calls. removePairs h hm k uf = Some (Inr (h', hm', calls))"
proof (cases "gmap h bs k")
  case None
  with removePairs_absent[OF t s c, of uf] show ?thesis by blast
next
  case (Some v)
  with removePairs_present[OF t, of k v uf] show ?thesis by blast
qed

lemma New_Inr:
  assumes "New n = Inr hm"
  shows "hm = New_table (New_exp n) \<and> 4 \<le> New_exp n \<and> New_exp n \<le> 62"
proof (cases "sint n \<le> 2 ^ 62")
  case True
  with assms New_eq[OF True] New_exp_bounds[OF True] show ?thesis by simp
next
  case False
  then have big: "2 ^ 62 < sint n" by simp
  then have n16: "\<not> sint n < 16" by simp
  have "sint n < 2 ^ 63" using sint_lt[of n] by simp
  then have "nat (sint n) \<le> 2 ^ 63" by (simp add: nat_le_iff)
  then have u: "ceil_log2 (nat (sint n)) \<le> 63" by (rule ceil_log2_le)
  have "\<not> ceil_log2 (nat (sint n)) \<le> 62"
  proof
    assume "ceil_log2 (nat (sint n)) \<le> 62"
    then have "(2::nat) ^ ceil_log2 (nat (sint n)) \<le> 2 ^ 62" by (rule power_increasing) simp
    with ceil_log2_upper[of "nat (sint n)"] have "nat (sint n) \<le> 2 ^ 62" by (rule order_trans)
    with big show False by (simp add: nat_le_iff)
  qed
  with u have e: "ceil_log2 (nat (sint n)) = 63" by simp
  have "New n = Inl MakesliceLen"
    using n16 by (simp add: New_def word_sless_alt e)
  with assms show ?thesis by simp
qed

lemma bucket_inv_empty: "slices hm ! i = None \<Longrightarrow> bucket_inv h hm i []"
  by (rule bucket_invI) simp_all

lemma hm_shape_New_table: "4 \<le> k \<Longrightarrow> k \<le> 62 \<Longrightarrow> hm_shape (New_table k)"
  unfolding hm_shape_def by (rule exI[of _ k]) (simp add: New_table_def)

lemma table_inv_New_table:
  assumes "4 \<le> k" "k \<le> 62"
  shows "table_inv h (New_table k) (replicate (2 ^ k) [])"
proof (rule table_invI)
  show "hm_shape (New_table k)" using assms by (rule hm_shape_New_table)
  show "length (replicate (2 ^ k) []) = length (slices (New_table k))" by (simp add: New_table_def)
  show "count (New_table k) = of_nat (length (concat (replicate (2 ^ k) [])))" by (simp add: New_table_def)
  fix i assume "i < length (replicate (2 ^ k) ([] :: nat list))"
  then have "slices (New_table k) ! i = None" by (simp add: New_table_def)
  then have "bucket_inv h (New_table k) i []" by (rule bucket_inv_empty)
  with \<open>i < length (replicate (2 ^ k) [])\<close> show "bucket_inv h (New_table k) i (replicate (2 ^ k) [] ! i)" by simp
qed

lemma table_inv_New:
  assumes "New n = Inr hm"
  shows "table_inv h hm (replicate (length (slices hm)) []) \<and> gmap h (replicate (length (slices hm)) []) = Map.empty"
proof -
  from New_Inr[OF assms] have e: "hm = New_table (New_exp n)" and k: "4 \<le> New_exp n" "New_exp n \<le> 62" by simp_all
  have l: "length (slices hm) = 2 ^ New_exp n" by (simp add: e New_table_def)
  have "table_inv h hm (replicate (2 ^ New_exp n) [])" unfolding e using k by (rule table_inv_New_table)
  moreover have "gmap h (replicate m []) = Map.empty" for m
    by (simp add: gmap_def abs_table_def)
  ultimately show ?thesis by (simp add: l)
qed

lemma node_in_gmap:
  assumes t: "table_inv h hm bs" and i: "i < length bs" and a: "a \<in> set (bs ! i)"
  shows "key (cells h a) \<in> dom (gmap h bs)"
proof -
  have "entry h a \<in> set (abs_table h bs ! i)" using i a by (simp add: abs_table_def)
  moreover have "i < length (abs_table h bs)" using i by (simp add: abs_table_def)
  ultimately have "entry h a \<in> set (concat (abs_table h bs))" unfolding in_concat_nth by blast
  then have "(key (cells h a), value' (cells h a)) \<in> set (concat (abs_table h bs))" by (simp add: entry_def)
  then have "\<exists>x. map_of (concat (abs_table h bs)) (key (cells h a)) = Some x" by (rule weak_map_of_SomeI)
  then show ?thesis by (auto simp: gmap_def)
qed

lemma all_dom_compat:
  assumes t: "table_inv h hm bs" and d: "all_dom h bs (dom_of k)"
  shows "compat h (bs ! bucket_of hm k) k"
  unfolding compat_def
proof
  fix a assume a: "a \<in> set (bs ! bucket_of hm k)"
  have "bucket_of hm k < length bs" using table_inv_bucket[OF t] by simp
  with t have "key (cells h a) \<in> dom (gmap h bs)" using a by (rule node_in_gmap)
  with d show "dom_of (key (cells h a)) = dom_of k" by (simp add: all_dom_def)
qed

lemma Remove_ok:
  assumes t: "table_inv h hm bs" and p: "Remove h hm k = Some (Inr (h', hm'))"
  shows "\<exists>bs'. table_inv h' hm' bs' \<and> gmap h' bs' = (gmap h bs)(k := None)"
proof -
  from p obtain calls where "removePairs h hm k False = Some (Inr (h', hm', calls))"
    by (auto simp: Remove_def split: option.splits sum.splits)
  from removePairs_ok[OF t this] show ?thesis by blast
qed

lemma run_inv:
  "table_inv h hm bs \<Longrightarrow> run h hm ops = Some (Inr (h', hm')) \<Longrightarrow>
   \<exists>bs'. table_inv h' hm' bs' \<and> gmap h' bs' = fold model_op ops (gmap h bs)"
proof (induction ops arbitrary: h hm bs)
  case Nil
  then show ?case by auto
next
  case (Cons x xs)
  from Cons.prems(2) obtain h1 hm1 where
    a: "apply_op h hm x = Some (Inr (h1, hm1))" and r: "run h1 hm1 xs = Some (Inr (h', hm'))"
    by (auto split: option.splits sum.splits)
  have "\<exists>bs1. table_inv h1 hm1 bs1 \<and> gmap h1 bs1 = model_op x (gmap h bs)"
  proof (cases x)
    case (OpPut k v)
    with a have "Put h hm k v = Some (Inr (h1, hm1))" by simp
    from Put_ok[OF Cons.prems(1) this] OpPut show ?thesis by auto
  next
    case (OpRemove k)
    with a have "Remove h hm k = Some (Inr (h1, hm1))" by simp
    from Remove_ok[OF Cons.prems(1) this] OpRemove show ?thesis by auto
  qed
  then obtain bs1 where t1: "table_inv h1 hm1 bs1" and g1: "gmap h1 bs1 = model_op x (gmap h bs)" by blast
  from Cons.IH[OF t1 r] g1 show ?case by simp
qed

lemma run_total:
  "table_inv h hm bs \<Longrightarrow> all_dom h bs d \<Longrightarrow> d \<noteq> DNone \<Longrightarrow> \<forall>x\<in>set ops. dom_of (op_key x) = d \<Longrightarrow>
   \<exists>h' hm'. run h hm ops = Some (Inr (h', hm'))"
proof (induction ops arbitrary: h hm bs)
  case Nil
  then show ?case by simp
next
  case (Cons x xs)
  have dk: "dom_of (op_key x) = d" using Cons.prems(4) by simp
  then have s: "supported (op_key x)" using Cons.prems(3) by (simp add: supported_def)
  have c: "compat h (bs ! bucket_of hm (op_key x)) (op_key x)"
    using Cons.prems(1,2) dk by (intro all_dom_compat) simp_all
  have "\<exists>h1 hm1 bs1. apply_op h hm x = Some (Inr (h1, hm1)) \<and> table_inv h1 hm1 bs1 \<and> all_dom h1 bs1 d"
  proof (cases x)
    case (OpPut k v)
    with s c have s': "supported k" and c': "compat h (bs ! bucket_of hm k) k" by simp_all
    from Put_total[OF Cons.prems(1) s' c', of v] obtain h1 hm1 where p: "Put h hm k v = Some (Inr (h1, hm1))" by blast
    from Put_ok[OF Cons.prems(1) p] obtain bs1 where
      t1: "table_inv h1 hm1 bs1" and g1: "gmap h1 bs1 = (gmap h bs)(k \<mapsto> v)" by blast
    have "all_dom h1 bs1 d" using Cons.prems(2) dk OpPut by (auto simp: all_dom_def g1)
    with p t1 OpPut show ?thesis by auto
  next
    case (OpRemove k)
    with s c have s': "supported k" and c': "compat h (bs ! bucket_of hm k) k" by simp_all
    from removePairs_total[OF Cons.prems(1) s' c', of False] obtain h1 hm1 calls where
      p: "removePairs h hm k False = Some (Inr (h1, hm1, calls))" by blast
    then have p': "Remove h hm k = Some (Inr (h1, hm1))" by (simp add: Remove_def)
    from Remove_ok[OF Cons.prems(1) p'] obtain bs1 where
      t1: "table_inv h1 hm1 bs1" and g1: "gmap h1 bs1 = (gmap h bs)(k := None)" by blast
    have "all_dom h1 bs1 d" using Cons.prems(2) by (auto simp: all_dom_def g1 split: if_splits)
    with p' t1 OpRemove show ?thesis by auto
  qed
  then obtain h1 hm1 bs1 where a: "apply_op h hm x = Some (Inr (h1, hm1))"
    and t1: "table_inv h1 hm1 bs1" and d1: "all_dom h1 bs1 d" by blast
  from Cons.IH[OF t1 d1 Cons.prems(3)] Cons.prems(4) obtain h' hm' where "run h1 hm1 xs = Some (Inr (h', hm'))"
    by auto
  with a show ?case by simp
qed

lemma model_card_le: "finite (dom m) \<Longrightarrow> finite (dom (fold model_op ops m)) \<and> card (dom (fold model_op ops m)) \<le> card (dom m) + length ops"
proof (induction ops arbitrary: m)
  case Nil
  then show ?case by simp
next
  case (Cons x xs)
  have f: "finite (dom (model_op x m))" using Cons.prems by (cases x) simp_all
  have "card (dom (model_op x m)) \<le> card (dom m) + 1"
  proof (cases x)
    case (OpPut k v)
    then show ?thesis using Cons.prems by (simp add: card_insert_if)
  next
    case (OpRemove k)
    then show ?thesis using Cons.prems
      by (auto simp: card_Diff_singleton_if)
  qed
  with Cons.IH[OF f] show ?case by simp
qed

lemma sint_of_nat_64: "n < 2 ^ 63 \<Longrightarrow> sint (of_nat n :: 64 word) = int n"
proof -
  assume a: "n < 2 ^ 63"
  then have "n < 2 ^ 64" by simp
  then have u: "uint (of_nat n :: 64 word) = int n"
    by (simp add: uint_nat unat_of_nat take_bit_nat_eq_self)
  then have "uint (of_nat n :: 64 word) < 2 ^ 63" using a by simp
  then have "sint (of_nat n :: 64 word) = uint (of_nat n :: 64 word)" by (rule sint_small_64)
  with u show ?thesis by simp
qed

section \<open>C1: sequences of Put and Remove\<close>

text \<open>
  C1 (amended). Take any store, a table made by \<open>New\<close> and any sequence of \<open>Put\<close> and
  \<open>Remove\<close> calls. \<open>model ops\<close> maps every key that was Put and not Removed
  afterwards to the value of its most recent Put. If the sequence runs to its end without
  a panic, then \<open>GetCount\<close> is the number of keys of \<open>model ops\<close> (as a 64-bit
  \<open>int\<close>; with fewer than \<open>2 ^ 63\<close> operations no wrap-around is possible) and
  \<open>Get\<close> returns, for each of these keys, the value of its most recent Put. Every
  sequence whose keys all belong to one supported domain does run to its end.
\<close>

theorem Put_Remove_sequence:
  assumes "New n = Inr hm0"
  shows "(\<forall>h hm. run h0 hm0 ops = Some (Inr (h, hm)) \<longrightarrow>
            GetCount hm = of_nat (card (dom (model ops)))
          \<and> (length ops < 2 ^ 63 \<longrightarrow> sint (GetCount hm) = int (card (dom (model ops))))
          \<and> (\<forall>k\<in>dom (model ops). Get h hm k = Some (Inr (the (model ops k)))))
       \<and> (d \<noteq> DNone \<and> (\<forall>x\<in>set ops. dom_of (op_key x) = d) \<longrightarrow>
            (\<exists>h hm. run h0 hm0 ops = Some (Inr (h, hm))))"
proof (intro conjI allI impI ballI)
  let ?bs0 = "replicate (length (slices hm0)) []"
  from table_inv_New[OF assms, of h0] have t0: "table_inv h0 hm0 ?bs0" and g0: "gmap h0 ?bs0 = Map.empty" by simp_all
  {
    fix h hm assume r: "run h0 hm0 ops = Some (Inr (h, hm))"
    from run_inv[OF t0 r] g0 obtain bs where t: "table_inv h hm bs" and g: "gmap h bs = model ops"
      by (auto simp: model_def)
    show c: "GetCount hm = of_nat (card (dom (model ops)))"
      using table_inv_GetCount[OF t] g by simp
    {
      assume "length ops < 2 ^ 63"
      moreover have "card (dom (model ops)) \<le> length ops"
        using model_card_le[of Map.empty ops] by (simp add: model_def)
      ultimately have "card (dom (model ops)) < 2 ^ 63" by simp
      then show "sint (GetCount hm) = int (card (dom (model ops)))"
        unfolding c by (rule sint_of_nat_64)
    }
    {
      fix k assume "k \<in> dom (model ops)"
      then obtain v where v: "model ops k = Some v" by auto
      with g have "gmap h bs k = Some v" by simp
      with t have "Get h hm k = Some (Inr v)" by (rule Get_present)
      with v show "Get h hm k = Some (Inr (the (model ops k)))" by simp
    }
  }
  {
    assume a: "d \<noteq> DNone \<and> (\<forall>x\<in>set ops. dom_of (op_key x) = d)"
    have "all_dom h0 ?bs0 d" by (simp add: all_dom_def g0)
    from run_total[OF t0 this] a show "\<exists>h hm. run h0 hm0 ops = Some (Inr (h, hm))" by blast
  }
qed

lemma New_16: "New 16 = Inr (New_table 4)"
  by (simp add: New_def New_table_def ceil_log2.simps word_sless_alt mask_eq_exp_minus_1)

text \<open>
  C1 on \<open>New(16)\<close> with string keys: Put a, Put b, Put a again, Remove b. The count
  is 1 and \<open>Get(a)\<close> returns the value of the second Put of a.
\<close>

theorem Put_Remove_sequence_witness:
  "\<exists>h hm. run (empty_heap :: int heap) (New_table 4)
       [OpPut (KString [97]) (Some 1), OpPut (KString [98]) (Some 2),
        OpPut (KString [97]) (Some 3), OpRemove (KString [98])] = Some (Inr (h, hm))
     \<and> GetCount hm = 1 \<and> sint (GetCount hm) = 1
     \<and> Get h hm (KString [97]) = Some (Inr (Some 3))"
proof -
  let ?ops = "[OpPut (KString [97]) (Some (1::int)), OpPut (KString [98]) (Some 2),
        OpPut (KString [97]) (Some 3), OpRemove (KString [98])]"
  have m: "model ?ops = [KString [97] \<mapsto> Some 3]"
    by (simp add: model_def fun_eq_iff)
  have d: "DString \<noteq> DNone \<and> (\<forall>x\<in>set ?ops. dom_of (op_key x) = DString)" by simp
  from Put_Remove_sequence[OF New_16, of "empty_heap :: int heap" ?ops DString] d
  obtain h hm where r: "run (empty_heap :: int heap) (New_table 4) ?ops = Some (Inr (h, hm))"
    and c: "GetCount hm = of_nat (card (dom (model ?ops)))"
    and s: "length ?ops < 2 ^ 63 \<longrightarrow> sint (GetCount hm) = int (card (dom (model ?ops)))"
    and g: "\<forall>k\<in>dom (model ?ops). Get h hm k = Some (Inr (the (model ?ops k)))"
    by blast
  from c have "GetCount hm = 1" by (simp add: m)
  moreover from s have "sint (GetCount hm) = 1" by (simp add: m)
  moreover from g have "Get h hm (KString [97]) = Some (Inr (Some 3))" by (simp add: m)
  ultimately show ?thesis using r by blast
qed

text \<open>
  C1 as stated fails for a sequence that mixes key domains in one bucket: on \<open>New(16)\<close>,
  \<open>Put(int 1)\<close> followed by \<open>Put(uint32 1)\<close> panics in \<open>uint32Equal\<close>, whose type
  assertion meets the stored \<open>int\<close> key.
\<close>

theorem Put_Remove_sequence_counterexample:
  "New 16 = Inr (New_table 4)
   \<and> run (empty_heap :: int heap) (New_table 4) [OpPut (KInt 1) (Some 1), OpPut (KUint32 1) (Some 2)]
       = Some (Inl TypeAssertion)"
  by (simp add: New_16 New_table_def empty_heap_def Put_def getPairs_def getPairsUnsafe_def
      slice_get_def getPairsUnsafe_loop.simps Put_locked_def alloc_def upd_def mask_eq_exp_minus_1)

section \<open>C10: keys of two domains in one bucket\<close>

lemma getPairsUnsafe_scan_panic:
  assumes s: "supported k"
    and g: "slice_get (slices hm) (hashIndex hm k) = Inr p"
    and c: "chain h p (xs @ a # ys)"
    and x: "\<forall>x\<in>set xs. dom_of (key (cells h x)) = dom_of k \<and> key (cells h x) \<noteq> k"
    and d: "dom_of (key (cells h a)) \<noteq> dom_of k"
  shows "getPairsUnsafe h hm k = Some (Inl TypeAssertion)"
    and "removePairs h hm k uf = Some (Inl TypeAssertion)"
proof -
  have cm: "compat h xs k" using x by (simp add: compat_def)
  have f: "find_key h k xs = None" using x by (simp add: find_key_None)
  have "getPairsUnsafe_loop (equalFunc k) h k p = Some (Inl TypeAssertion)"
    using c s cm f d by (rule loop_panic)
  then show "getPairsUnsafe h hm k = Some (Inl TypeAssertion)"
    by (simp add: getPairsUnsafe_def getHashIndexAndEqualFunc_eq s g)
  have "removePairs_loop (equalFunc k) h hm k uf (hashIndex hm k) p None p = Some (Inl TypeAssertion)"
    using c s cm f d by (rule remove_loop_panic)
  then show "removePairs h hm k uf = Some (Inl TypeAssertion)"
    by (simp add: removePairs_def getHashIndexAndEqualFunc_eq s g)
qed

text \<open>
  C10. Let \<open>k\<close> be a key of a supported domain and let the chain of its bucket hold a
  node \<open>a\<close> whose key is of another domain, after nodes \<open>xs\<close> of \<open>k\<close>'s domain with other
  keys. The scan applies the equality function of \<open>k\<close>'s domain to each node in turn; at
  \<open>a\<close> its type assertion on the stored key fails. So \<open>Get\<close>, \<open>Exists\<close>, \<open>Put\<close>,
  \<open>Remove\<close> and \<open>RemoveAndUpdate\<close> of \<open>k\<close> all panic, although both keys are of supported
  domains.
\<close>

theorem cross_domain_bucket_panics:
  assumes "getHashIndexAndEqualFunc hm k = Inr (i, equal)"
    and "slice_get (slices hm) i = Inr p"
    and "chain h p (xs @ a # ys)"
    and "\<forall>x\<in>set xs. dom_of (key (cells h x)) = dom_of k \<and> key (cells h x) \<noteq> k"
    and "dom_of (key (cells h a)) \<noteq> dom_of k"
  shows "equal (key (cells h a)) k = Inl TypeAssertion
     \<and> Get h hm k = Some (Inl TypeAssertion)
     \<and> Exists h hm k = Some (Inl TypeAssertion)
     \<and> Put h hm k v = Some (Inl TypeAssertion)
     \<and> Remove h hm k = Some (Inl TypeAssertion)
     \<and> RemoveAndUpdate h hm k = Some (Inl TypeAssertion)"
proof -
  from assms(1) have s: "supported k" and i: "i = hashIndex hm k" and e: "equal = equalFunc k"
    by (simp_all add: getHashIndexAndEqualFunc_eq split: if_splits)
  from assms(2) i have g: "slice_get (slices hm) (hashIndex hm k) = Inr p" by simp
  have eq: "equal (key (cells h a)) k = Inl TypeAssertion"
    unfolding e using s assms(5) by (rule equalFunc_diff)
  have l: "getPairsUnsafe h hm k = Some (Inl TypeAssertion)"
    using s g assms(3,4,5) by (rule getPairsUnsafe_scan_panic(1))
  have r: "removePairs h hm k uf = Some (Inl TypeAssertion)" for uf
    using s g assms(3,4,5) by (rule getPairsUnsafe_scan_panic(2))
  show ?thesis
    by (simp add: eq Get_def Exists_def Put_def getPairs_def l Remove_def RemoveAndUpdate_def r)
qed

lemma Put_string_a:
  "Put (empty_heap :: int heap) (New_table 4) (KString [97]) (Some 1)
     = Some (Inr (\<lparr>cells = (cells empty_heap)(0 := \<lparr>key = KString [97], value' = Some 1, last' = Some 0, next' = None\<rparr>),
                    fresh = 1\<rparr>,
                  \<lparr>slices = (replicate 16 None)[14 := Some 0], capacity = 16, mask_uint32 = 15,
                    mask_uint64 = 15, mask_int = 15, count = 1\<rparr>))"
  by (simp add: New_table_def empty_heap_def Put_def getPairs_def getPairsUnsafe_def fnv32_def
      slice_get_def getPairsUnsafe_loop.simps Put_locked_def alloc_def upd_def mask_eq_exp_minus_1)

text \<open>
  C10 on \<open>New(16)\<close>: after \<open>Put\<close> of the string key "a", every operation on the
  byte-sequence key "a", which has the same hash and so the same bucket, panics.
\<close>

theorem cross_domain_bucket_panics_witness:
  "\<exists>h hm. Put (empty_heap :: int heap) (New_table 4) (KString [97]) (Some 1) = Some (Inr (h, hm))
     \<and> Get h hm (KBytes [97]) = Some (Inl TypeAssertion)
     \<and> Exists h hm (KBytes [97]) = Some (Inl TypeAssertion)
     \<and> Put h hm (KBytes [97]) (Some 2) = Some (Inl TypeAssertion)
     \<and> Remove h hm (KBytes [97]) = Some (Inl TypeAssertion)
     \<and> RemoveAndUpdate h hm (KBytes [97]) = Some (Inl TypeAssertion)"
proof -
  let ?h = "\<lparr>cells = (cells empty_heap)(0 := \<lparr>key = KString [97], value' = Some (1::int), last' = Some 0, next' = None\<rparr>),
                    fresh = 1\<rparr>"
  let ?hm = "\<lparr>slices = (replicate 16 None)[14 := Some 0], capacity = 16, mask_uint32 = 15,
                    mask_uint64 = 15, mask_int = 15, count = 1\<rparr>"
  have a: "getHashIndexAndEqualFunc ?hm (KBytes [97]) = Inr (14, bytesEqual)"
    by (simp add: fnv32_def)
  have b: "slice_get (slices ?hm) 14 = Inr (Some 0)" by (simp add: slice_get_def)
  have c: "chain ?h (Some 0) ([] @ 0 # [])" by simp
  have d: "\<forall>x\<in>set []. dom_of (key (cells ?h x)) = dom_of (KBytes [97]) \<and> key (cells ?h x) \<noteq> KBytes [97]" by simp
  have e: "dom_of (key (cells ?h 0)) \<noteq> dom_of (KBytes [97])" by simp
  from cross_domain_bucket_panics[OF a b c d e, of "Some 2"] Put_string_a
  show ?thesis by blast
qed

section \<open>C5: Expand with a capacity that is too small\<close>

text \<open>
  C5. When the requested capacity does not exceed the table's count, \<open>Expand\<close> panics
  with \<open>CapacityTooSmall\<close> before it reads or writes anything: the store it leaves is the
  store it was given.
\<close>

theorem Expand_capacity_too_small:
  "capacity0 \<le>s GetCount hm \<Longrightarrow> Expand h hm capacity0 = Some (h, Inl CapacityTooSmall)"
  by (simp add: Expand_def GetCount_def)

lemma gmap_replicate: "gmap h (replicate m []) = Map.empty"
  by (simp add: gmap_def abs_table_def)

lemma Put_Put_string:
  "\<exists>h hm. run (empty_heap :: int heap) (New_table 4) [OpPut (KString [97]) (Some 1), OpPut (KString [98]) (Some 2)]
      = Some (Inr (h, hm)) \<and> GetCount hm = 2"
proof -
  let ?ops = "[OpPut (KString [97]) (Some (1::int)), OpPut (KString [98]) (Some 2)]"
  have d: "DString \<noteq> DNone \<and> (\<forall>x\<in>set ?ops. dom_of (op_key x) = DString)" by simp
  have t0: "table_inv (empty_heap :: int heap) (New_table 4) (replicate (2 ^ 4) [])"
    by (rule table_inv_New_table) simp_all
  have g0: "gmap (empty_heap :: int heap) (replicate (2 ^ 4) []) = Map.empty"
    by (rule gmap_replicate)
  have "all_dom (empty_heap :: int heap) (replicate (2 ^ 4) []) DString"
    unfolding all_dom_def g0 by simp
  from run_total[OF t0 this] d obtain h hm where r: "run (empty_heap :: int heap) (New_table 4) ?ops = Some (Inr (h, hm))"
    by blast
  from run_inv[OF t0 r] obtain bs where t: "table_inv h hm bs" and g: "gmap h bs = fold model_op ?ops Map.empty"
    unfolding g0 by blast
  have "GetCount hm = 2" using table_inv_GetCount[OF t] by (simp add: g)
  with r show ?thesis by blast
qed

text \<open>
  C5 on a table of two entries: \<open>Expand(2)\<close>, \<open>Expand(0)\<close> and \<open>Expand(-1)\<close> panic and
  leave the store as it was.
\<close>

theorem Expand_capacity_too_small_witness:
  "\<exists>h hm. run (empty_heap :: int heap) (New_table 4) [OpPut (KString [97]) (Some 1), OpPut (KString [98]) (Some 2)]
      = Some (Inr (h, hm))
     \<and> Expand h hm 2 = Some (h, Inl CapacityTooSmall)
     \<and> Expand h hm 0 = Some (h, Inl CapacityTooSmall)
     \<and> Expand h hm (- 1) = Some (h, Inl CapacityTooSmall)"
proof -
  from Put_Put_string obtain h hm where
    r: "run (empty_heap :: int heap) (New_table 4) [OpPut (KString [97]) (Some 1), OpPut (KString [98]) (Some 2)]
      = Some (Inr (h, hm))" and c: "GetCount hm = 2" by blast
  have "(2 :: 64 word) \<le>s GetCount hm" "(0 :: 64 word) \<le>s GetCount hm" "(- 1 :: 64 word) \<le>s GetCount hm"
    by (simp_all add: c word_sle_eq)
  with Expand_capacity_too_small[of 2 hm h] Expand_capacity_too_small[of 0 hm h]
    Expand_capacity_too_small[of "- 1" hm h] r
  show ?thesis by blast
qed

section \<open>C2: two concurrent Puts of one absent key\<close>

text \<open>Run alone, the two critical sections of a thread are \<open>Put\<close>.\<close>

lemma Put_two_sections:
  "run_schedule h hm [Ready k v] [0, 0]
     = (case Put h hm k v of
          None \<Rightarrow> None
        | Some (Inl e) \<Rightarrow> Some (h, hm, [Panicked e])
        | Some (Inr (h1, hm1)) \<Rightarrow> Some (h1, hm1, [Finished]))"
  by (auto simp: Put_def split: option.split sum.split)

lemma Iterate_buckets_empty: "Iterate_buckets h (replicate n None) calls = Some calls"
  by (induction n) simp_all

lemma Iterate_single_bucket:
  "i < n \<Longrightarrow> Iterate_buckets h ((replicate n None)[i := Some a]) calls = Iterate_chain h a calls"
proof (induction n arbitrary: i)
  case 0
  then show ?case by simp
next
  case (Suc n)
  show ?case
  proof (cases i)
    case 0
    then show ?thesis by (simp add: Iterate_buckets_empty split: option.split)
  next
    case (Suc j)
    with Suc.prems Suc.IH[of j] show ?thesis by simp
  qed
qed

text \<open>
  C2 fails on the code. Two threads \<open>Put\<close> the same absent key on \<open>New(16)\<close>. When both
  run \<open>getPairs\<close> before either takes the exclusive lock, both find the key absent and
  both insert: the count is 2 and the chain holds the key twice. When one thread runs
  both its sections first, the count is 1 and the second value overwrites the first.
\<close>

theorem concurrent_Put_duplicates:
  "map_option (\<lambda>(h, hm, ts). (GetCount hm, Iterate h hm, ts))
     (run_schedule (empty_heap :: int heap) (New_table 4)
        [Ready (KString [97]) (Some 1), Ready (KString [97]) (Some 2)] [0, 1, 0, 1])
     = Some (2, Some [(KString [97], Some 1), (KString [97], Some 2)], [Finished, Finished])
   \<and> map_option (\<lambda>(h, hm, ts). (GetCount hm, Iterate h hm, ts))
     (run_schedule (empty_heap :: int heap) (New_table 4)
        [Ready (KString [97]) (Some 1), Ready (KString [97]) (Some 2)] [0, 0, 1, 1])
     = Some (1, Some [(KString [97], Some 2)], [Finished, Finished])"
  by (simp add: New_table_def empty_heap_def getPairs_def getPairsUnsafe_def fnv32_def
      slice_get_def getPairsUnsafe_loop.simps Put_locked_def alloc_def upd_def mask_eq_exp_minus_1
      GetCount_def Iterate_def Iterate_single_bucket Iterate_chain.simps)

end
